theory Spec2Isabelle
  imports Main "HOL-Library.Sublist"
begin

section \<open>Data model of the research tree\<close>

text \<open>
  The orchestrator \<open>deepResearch\<close> and its helper \<open>childNodeId\<close> are embedded from the
  TypeScript source. JavaScript numbers that the orchestrator uses (breadth, depth, array
  indices) are integers in every call the source makes and are modelled as \<open>int\<close>; an
  optional field or an \<open>undefined\<close> value is an \<open>option\<close>.
\<close>

type_synonym NodeId = string

text \<open>A learning as it flows through the orchestrator at run time: the fields of a streamed
  (partial) value may be absent, and \<open>title\<close> is added by \<open>deepResearch\<close>.\<close>

record Learning =
  url :: "string option"
  learning :: "string option"
  title :: "string option"

text \<open>\<open>PartialSearchQuery\<close>, as the model returns it.\<close>

record PartialSearchQuery =
  query :: "string option"
  researchGoal :: "string option"

text \<open>\<open>PartialSearchQuery & { nodeId: string }\<close>, the element type of \<open>searchQueries\<close>.\<close>

record SearchQueryNode = PartialSearchQuery +
  nodeId :: NodeId

record WebSearchResult =
  wurl :: string
  wtitle :: "string option"
  wcontent :: string

record PartialProcessedSearchResult =
  plearnings :: "Learning list option"
  pfollowUpQuestions :: "string list option"

record ProcessedSearchResult =
  learnings :: "Learning list"
  followUpQuestions :: "string list"

record ResearchResult =
  rlearnings :: "Learning list"

text \<open>The fields of \<open>DeepResearchNode\<close> that \<open>deepResearch\<close> reads.\<close>

record DeepResearchNode =
  rid :: NodeId
  rlabel :: string
  rresearchGoal :: "string option"

text \<open>The tagged union of progress events; the constructor names follow the \<open>type\<close> tags.\<close>

datatype ResearchStep =
    Generating_query SearchQueryNode NodeId NodeId
  | Generating_query_reasoning string NodeId
  | Generated_query "string option" SearchQueryNode NodeId
  | Searching string NodeId
  | Search_complete "WebSearchResult list" NodeId
  | Processing_serach_result string PartialProcessedSearchResult NodeId
  | Processing_serach_result_reasoning string NodeId
  | Node_complete "ProcessedSearchResult option" NodeId
  | Error_step "string option" NodeId
  | Complete "Learning list"

section \<open>Node addressing\<close>

text \<open>Decimal rendering of an integer, as a template literal renders an integral number.\<close>

definition digit :: "nat \<Rightarrow> char" where
  "digit d = ''0123456789'' ! d"

function decimal :: "nat \<Rightarrow> string" where
  "decimal n = (if n < 10 then [digit n] else decimal (n div 10) @ [digit (n mod 10)])"
  by pat_completeness auto
termination
  by (relation "measure id") auto

definition render :: "int \<Rightarrow> string" where
  "render i = (if i < 0 then CHR ''-'' # decimal (nat (- i)) else decimal (nat i))"

text \<open>\<open>childNodeId\<close>: the template literal \<open>`${parentNodeId}-${currentIndex}`\<close>.\<close>

definition childNodeId :: "NodeId \<Rightarrow> int \<Rightarrow> NodeId" where
  "childNodeId parentNodeId currentIndex = parentNodeId @ ''-'' @ render currentIndex"

text \<open>Modelled from the spec: \<open>parentOf\<close> is not a function of the source; the specification
  describes it as the prefix of a NodeId before its last \<open>-\<close>.\<close>

definition parentOf :: "NodeId \<Rightarrow> NodeId" where
  "parentOf n = rev (tl (dropWhile (\<lambda>c. c \<noteq> CHR ''-'') (rev n)))"

section \<open>Settling a snapshot of generated queries\<close>

text \<open>\<open>.map((q, i) => ({ ...q, nodeId: childNodeId(nodeId, i) }))\<close>, the index running
  from \<open>i\<close>.\<close>

fun assignIds :: "NodeId \<Rightarrow> int \<Rightarrow> PartialSearchQuery list \<Rightarrow> SearchQueryNode list" where
  "assignIds n i [] = []"
| "assignIds n i (q # qs) =
     PartialSearchQuery.extend q \<lparr>nodeId = childNodeId n i\<rparr> # assignIds n (i + 1) qs"

text \<open>The value assigned to \<open>searchQueries\<close> for one snapshot \<open>chunk.value.queries\<close>.\<close>

definition settle :: "NodeId \<Rightarrow> PartialSearchQuery list \<Rightarrow> SearchQueryNode list" where
  "settle n qs = assignIds n 0 (filter (\<lambda>q. query q \<noteq> Some ''undefined'') qs)"

section \<open>External collaborators\<close>

text \<open>A value that a collaborator throws: an object whose \<open>message\<close> may be absent.\<close>

datatype thrown = Thrown (message: "string option")

text \<open>
  Modelled from the spec: \<open>parseStreamingJson\<close> (imported from \<open>~/utils/json\<close>) is not among
  the source files. By the specification it yields a finite sequence of typed events: an
  object snapshot, a reasoning delta, an error message, or \<open>bad-end\<close>. Consuming the
  sequence may also end in an exception (the model call itself throwing), which is the
  second component of a stream.
\<close>

datatype 'v chunk =
    Object_chunk 'v
  | Reasoning_chunk string
  | Error_chunk string
  | Bad_end

type_synonym 'v stream = "'v chunk list \<times> thrown option"

record QueriesValue =
  queries :: "PartialSearchQuery list option"

text \<open>
  The collaborators are parameters of the model. Each is a function of the arguments the
  source passes, and of the NodeId on whose behalf the call is made, so that two nodes may
  receive different answers to equal arguments.
  \<^item> \<open>t_language\<close> is \<open>t('language', {}, { locale })\<close> and \<open>t_invalidStructuredOutput\<close> is
    \<open>t('invalidStructuredOutput')\<close>;
  \<^item> \<open>searchQueriesStream\<close> is \<open>parseStreamingJson\<close> over \<open>generateSearchQueries\<close>
    (query, learnings, numQueries, language, searchLanguage);
  \<^item> \<open>webSearch\<close> is \<open>useWebSearch()\<close> (query, lang; \<open>maxResults\<close> is the constant 5);
  \<^item> \<open>searchResultStream\<close> is \<open>parseStreamingJson\<close> over \<open>processSearchResult\<close>
    (query, results, numFollowUpQuestions, language).
\<close>

record Env =
  t_language :: "string \<Rightarrow> string"
  t_invalidStructuredOutput :: string
  searchQueriesStream ::
    "NodeId \<Rightarrow> string \<Rightarrow> string option list option \<Rightarrow> int \<Rightarrow> string \<Rightarrow> string option
      \<Rightarrow> QueriesValue stream"
  webSearch :: "NodeId \<Rightarrow> string \<Rightarrow> string \<Rightarrow> thrown + WebSearchResult list"
  searchResultStream ::
    "NodeId \<Rightarrow> string \<Rightarrow> WebSearchResult list \<Rightarrow> int \<Rightarrow> string
      \<Rightarrow> PartialProcessedSearchResult stream"

text \<open>The arguments of \<open>deepResearch\<close> (\<open>onProgress\<close> is the event list of the state).\<close>

record Params =
  p_query :: string
  p_breadth :: int
  p_maxDepth :: int
  p_languageCode :: string
  p_searchLanguageCode :: "string option"
  p_learnings :: "Learning list option"
  p_currentDepth :: int
  p_nodeId :: NodeId
  p_retryNode :: "DeepResearchNode option"

text \<open>
  The state that a run changes: the progress events reported so far, in order, and the
  shared limiter's \<open>concurrency\<close>. \<open>calls\<close> is a ghost field: it records every invocation of
  \<open>deepResearch\<close>, with its arguments and the limiter's \<open>concurrency\<close> at entry.

  The branches of one node are run one after the other, in child order, each to its end;
  the interleaving of sibling branches at their suspension points is modelled separately,
  for the limiter only (section on the limiter under interleaving). The callback
  \<open>onProgress\<close> records its event and does not throw.
\<close>

record State =
  events :: "ResearchStep list"
  concurrency :: int
  calls :: "(Params \<times> int) list"

definition onProgress :: "ResearchStep \<Rightarrow> State \<Rightarrow> State" where
  "onProgress step s = s\<lparr>events := events s @ [step]\<rparr>"

section \<open>Obtaining the child queries\<close>

text \<open>One \<open>generating_query\<close> event for each entry of \<open>searchQueries\<close>.\<close>

fun reportGenerating :: "NodeId \<Rightarrow> SearchQueryNode list \<Rightarrow> State \<Rightarrow> State" where
  "reportGenerating n [] s = s"
| "reportGenerating n (q # qs) s =
     reportGenerating n qs (onProgress (Generating_query q (nodeId q) n) s)"

text \<open>The \<open>for await\<close> loop over the query stream. The result holds the state, the value of
  \<open>searchQueries\<close> when the loop is left, and the exception if the stream ended in one. A
  \<open>break\<close> leaves the loop without consuming the rest of the stream.\<close>

fun genLoop ::
  "Env \<Rightarrow> NodeId \<Rightarrow> QueriesValue chunk list \<Rightarrow> thrown option \<Rightarrow> SearchQueryNode list \<Rightarrow> State
    \<Rightarrow> State \<times> SearchQueryNode list \<times> thrown option" where
  "genLoop env n [] thr searchQueries s = (s, searchQueries, thr)"
| "genLoop env n (Object_chunk v # cs) thr searchQueries s =
     (case queries v of
        Some qs \<Rightarrow>
          let searchQueries' = settle n qs
          in genLoop env n cs thr searchQueries' (reportGenerating n searchQueries' s)
      | None \<Rightarrow> genLoop env n cs thr searchQueries s)"
| "genLoop env n (Reasoning_chunk delta # cs) thr searchQueries s =
     genLoop env n cs thr searchQueries (onProgress (Generating_query_reasoning delta n) s)"
| "genLoop env n (Error_chunk msg # cs) thr searchQueries s =
     (onProgress (Error_step (Some msg) n) s, searchQueries, None)"
| "genLoop env n (Bad_end # cs) thr searchQueries s =
     (onProgress (Error_step (Some (t_invalidStructuredOutput env)) n) s, searchQueries, None)"

fun reportGenerated :: "SearchQueryNode list \<Rightarrow> State \<Rightarrow> State" where
  "reportGenerated [] s = s"
| "reportGenerated (q # qs) s =
     reportGenerated qs (onProgress (Generated_query (query q) q (nodeId q)) s)"

text \<open>\<open>retryNode && retryNode.id !== '0'\<close>.\<close>

definition isRetry :: "Params \<Rightarrow> bool" where
  "isRetry p = (case p_retryNode p of None \<Rightarrow> False | Some r \<Rightarrow> rid r \<noteq> ''0'')"

text \<open>The value of the variable \<open>nodeId\<close> after the first statement of the \<open>try\<close> block,
  which reassigns it on a retry.\<close>

definition effectiveNodeId :: "Params \<Rightarrow> NodeId" where
  "effectiveNodeId p =
     (case p_retryNode p of
        None \<Rightarrow> p_nodeId p
      | Some r \<Rightarrow> if rid r \<noteq> ''0'' then rid r else p_nodeId p)"

text \<open>\<open>searchLanguageCode ? t('language', {}, { locale: searchLanguageCode }) : undefined\<close>.\<close>

definition searchLanguageOf :: "Env \<Rightarrow> Params \<Rightarrow> string option" where
  "searchLanguageOf env p =
     (case p_searchLanguageCode p of
        None \<Rightarrow> None
      | Some c \<Rightarrow> if c = [] then None else Some (t_language env c))"

text \<open>The \<open>else\<close> branch of the entry: query generation, then \<open>node_complete\<close> for the
  generating node and one \<open>generated_query\<close> per final child. In this branch \<open>nodeId\<close> is
  the argument \<open>nodeId\<close>.\<close>

definition generateQueries ::
  "Env \<Rightarrow> Params \<Rightarrow> State \<Rightarrow> State \<times> SearchQueryNode list \<times> thrown option" where
  "generateQueries env p s =
     (let n = p_nodeId p;
          (cs, thr) = searchQueriesStream env n (p_query p)
                        (map_option (map learning) (p_learnings p)) (p_breadth p)
                        (t_language env (p_languageCode p)) (searchLanguageOf env p);
          (s1, searchQueries, t) = genLoop env n cs thr [] s
      in case t of
           Some e \<Rightarrow> (s1, searchQueries, Some e)
         | None \<Rightarrow>
             (reportGenerated searchQueries (onProgress (Node_complete None n) s1),
              searchQueries, None))"

text \<open>The first half of the \<open>try\<close> block: the retry query, or query generation with its
  events. The third component is the exception that escapes, if any.\<close>

definition obtainQueries ::
  "Env \<Rightarrow> Params \<Rightarrow> State \<Rightarrow> State \<times> SearchQueryNode list \<times> thrown option" where
  "obtainQueries env p s =
     (case p_retryNode p of
        Some r \<Rightarrow>
          if rid r \<noteq> ''0''
          then (s, [\<lparr>query = Some (rlabel r), researchGoal = rresearchGoal r, nodeId = rid r\<rparr>],
                None)
          else generateQueries env p s
      | None \<Rightarrow> generateQueries env p s)"

section \<open>One branch: search and result processing\<close>

text \<open>The \<open>for await\<close> loop over the processing stream; \<open>searchResult\<close> is the last object
  snapshot seen.\<close>

fun procLoop ::
  "Env \<Rightarrow> string \<Rightarrow> NodeId \<Rightarrow> PartialProcessedSearchResult chunk list \<Rightarrow> thrown option
    \<Rightarrow> PartialProcessedSearchResult \<Rightarrow> State
    \<Rightarrow> State \<times> PartialProcessedSearchResult \<times> thrown option" where
  "procLoop env q n [] thr searchResult s = (s, searchResult, thr)"
| "procLoop env q n (Object_chunk v # cs) thr searchResult s =
     procLoop env q n cs thr v (onProgress (Processing_serach_result q v n) s)"
| "procLoop env q n (Reasoning_chunk delta # cs) thr searchResult s =
     procLoop env q n cs thr searchResult
       (onProgress (Processing_serach_result_reasoning delta n) s)"
| "procLoop env q n (Error_chunk msg # cs) thr searchResult s =
     (onProgress (Error_step (Some msg) n) s, searchResult, None)"
| "procLoop env q n (Bad_end # cs) thr searchResult s =
     (onProgress (Error_step (Some (t_invalidStructuredOutput env)) n) s, searchResult, None)"

text \<open>\<open>results.find((r) => r.url === learning.url)?.title\<close> for every learning.\<close>

definition assignTitles ::
  "WebSearchResult list \<Rightarrow> PartialProcessedSearchResult \<Rightarrow> PartialProcessedSearchResult" where
  "assignTitles results searchResult =
     searchResult\<lparr>plearnings :=
       map_option
         (map (\<lambda>l. l\<lparr>title := (case find (\<lambda>r. Some (wurl r) = url l) results of
                                 None \<Rightarrow> None
                               | Some r \<Rightarrow> wtitle r)\<rparr>))
         (plearnings searchResult)\<rparr>"

text \<open>\<open>Math.ceil(breadth / 2)\<close> on an integer.\<close>

definition nextBreadthOf :: "int \<Rightarrow> int" where
  "nextBreadthOf breadth = - ((- breadth) div 2)"

text \<open>The \<open>try\<close> block of a branch up to the assignment of titles: the search, its
  \<open>search_complete\<close> event and the processing stream. \<open>Inl\<close> is an exception thrown by the
  search or while the processing stream is consumed.\<close>

definition searchAndProcess ::
  "Env \<Rightarrow> Params \<Rightarrow> SearchQueryNode \<Rightarrow> string \<Rightarrow> State
    \<Rightarrow> State \<times> (thrown + PartialProcessedSearchResult)" where
  "searchAndProcess env p searchQuery q s =
     (case webSearch env (nodeId searchQuery) q (p_languageCode p) of
        Inl e \<Rightarrow> (s, Inl e)
      | Inr results \<Rightarrow>
          (let s1 = onProgress (Search_complete results (nodeId searchQuery)) s;
              (cs, thr) = searchResultStream env (nodeId searchQuery) q results
                            (nextBreadthOf (p_breadth p)) (t_language env (p_languageCode p));
              (s2, searchResult, t) =
                procLoop env q (nodeId searchQuery) cs thr
                  \<lparr>plearnings = None, pfollowUpQuestions = None\<rparr> s1
          in case t of
               Some e \<Rightarrow> (s2, Inl e)
             | None \<Rightarrow> (s2, Inr (assignTitles results searchResult))))"

text \<open>\<open>String.prototype.trim\<close> on the ASCII white space.\<close>

definition isSpace :: "char \<Rightarrow> bool" where
  "isSpace c = (c \<in> set [CHR '' '', CHR 0x09, CHR 0x0A, CHR 0x0B, CHR 0x0C, CHR 0x0D])"

definition trim :: "string \<Rightarrow> string" where
  "trim x = rev (dropWhile isSpace (rev (dropWhile isSpace x)))"

text \<open>The query of the recursive call: the template literal of the source, trimmed. An
  absent research goal is rendered as \<open>undefined\<close>.\<close>

definition nextQueryOf :: "string option \<Rightarrow> string list \<Rightarrow> string" where
  "nextQueryOf goal followUps =
     trim ([CHR 0x0A] @ replicate 14 CHR '' '' @ ''Previous research goal: ''
           @ (case goal of None \<Rightarrow> ''undefined'' | Some g \<Rightarrow> g)
           @ [CHR 0x0A] @ replicate 14 CHR '' '' @ ''Follow-up research directions: ''
           @ concat (map (\<lambda>q. CHR 0x0A # q) followUps)
           @ [CHR 0x0A] @ replicate 12 CHR '' '')"

text \<open>\<open>nextDepth <= maxDepth && searchResult.followUpQuestions?.length\<close>.\<close>

definition goesDeeper :: "Params \<Rightarrow> PartialProcessedSearchResult \<Rightarrow> bool" where
  "goesDeeper p searchResult =
     (p_currentDepth p + 1 \<le> p_maxDepth p \<and>
      (case pfollowUpQuestions searchResult of None \<Rightarrow> False | Some fs \<Rightarrow> fs \<noteq> []))"

text \<open>The payload of a branch's \<open>node_complete\<close> event:
  \<open>{ learnings: searchResult.learnings ?? [], followUpQuestions:
  searchResult.followUpQuestions ?? [] }\<close>.\<close>

definition processedOf :: "PartialProcessedSearchResult \<Rightarrow> ProcessedSearchResult" where
  "processedOf searchResult =
     \<lparr>learnings = (case plearnings searchResult of None \<Rightarrow> [] | Some ls \<Rightarrow> ls),
      followUpQuestions =
        (case pfollowUpQuestions searchResult of None \<Rightarrow> [] | Some fs \<Rightarrow> fs)\<rparr>"

text \<open>\<open>[...(learnings ?? []), ...(searchResult.learnings ?? [])]\<close>.\<close>

definition allLearningsOf :: "Params \<Rightarrow> PartialProcessedSearchResult \<Rightarrow> Learning list" where
  "allLearningsOf p searchResult =
     (case p_learnings p of None \<Rightarrow> [] | Some ls \<Rightarrow> ls)
     @ (case plearnings searchResult of None \<Rightarrow> [] | Some ls \<Rightarrow> ls)"

text \<open>The arguments of the recursive call. \<open>searchLanguageCode\<close> and \<open>retryNode\<close> are not
  passed on.\<close>

definition nextParams :: "Params \<Rightarrow> SearchQueryNode \<Rightarrow> PartialProcessedSearchResult \<Rightarrow> Params" where
  "nextParams p searchQuery searchResult =
     \<lparr>p_query = nextQueryOf (researchGoal searchQuery)
                  (case pfollowUpQuestions searchResult of None \<Rightarrow> [] | Some fs \<Rightarrow> fs),
      p_breadth = nextBreadthOf (p_breadth p),
      p_maxDepth = p_maxDepth p,
      p_languageCode = p_languageCode p,
      p_searchLanguageCode = None,
      p_learnings = Some (allLearningsOf p searchResult),
      p_currentDepth = p_currentDepth p + 1,
      p_nodeId = nodeId searchQuery,
      p_retryNode = None\<rparr>"

section \<open>Aggregation\<close>

text \<open>The two nested loops that deduplicate by \<open>url\<close>: \<open>urlMap\<close> is the \<open>Map\<close> of the
  source, \<open>finalLearnings\<close> the array that is pushed to.\<close>

definition dedupStep ::
  "(string option \<rightharpoonup> bool) \<times> Learning list \<Rightarrow> Learning
    \<Rightarrow> (string option \<rightharpoonup> bool) \<times> Learning list" where
  "dedupStep acc l =
     (case acc of (urlMap, finalLearnings) \<Rightarrow>
        if urlMap (url l) = None
        then (urlMap(url l \<mapsto> True), finalLearnings @ [l])
        else (urlMap, finalLearnings))"

definition conclude :: "ResearchResult list \<Rightarrow> Learning list" where
  "conclude results =
     snd (foldl (\<lambda>acc result. foldl dedupStep acc (rlearnings result)) (Map.empty, []) results)"

section \<open>The orchestrator\<close>

text \<open>
  \<open>deepResearch\<close> with its fan-out. \<open>branch\<close> is the unit of work handed to the limiter for
  one child query, \<open>fanOut\<close> the \<open>Promise.all\<close> over the children. A result \<open>Inl\<close> of
  \<open>deepResearch\<close> would be a rejected promise.
\<close>

function deepResearch :: "Env \<Rightarrow> Params \<Rightarrow> State \<Rightarrow> State \<times> (thrown + ResearchResult)"
  and fanOut :: "Env \<Rightarrow> Params \<Rightarrow> SearchQueryNode list \<Rightarrow> State \<Rightarrow> State \<times> ResearchResult list"
  and branch :: "Env \<Rightarrow> Params \<Rightarrow> SearchQueryNode \<Rightarrow> State \<Rightarrow> State \<times> ResearchResult"
where
  "deepResearch env p s =
     (let s0 = s\<lparr>calls := calls s @ [(p, concurrency s)]\<rparr>;
          n = effectiveNodeId p
      in case (case obtainQueries env p s0 of
                 (s1, searchQueries, Some e) \<Rightarrow> (s1, Inl e)
               | (s1, searchQueries, None) \<Rightarrow>
                   (case fanOut env p searchQueries s1 of
                      (s2, results) \<Rightarrow>
                        let finalLearnings = conclude results
                        in (if n = ''0'' then onProgress (Complete finalLearnings) s2 else s2,
                            Inr \<lparr>rlearnings = finalLearnings\<rparr>))) of
           (s3, Inr r) \<Rightarrow> (s3, Inr r)
         | (s3, Inl e) \<Rightarrow>
             (onProgress
                (Error_step
                   (Some (case message e of None \<Rightarrow> ''Something went wrong'' | Some m \<Rightarrow> m)) n)
                s3,
              Inr \<lparr>rlearnings = []\<rparr>))"
| "fanOut env p [] s = (s, [])"
| "fanOut env p (searchQuery # rest) s =
     (case branch env p searchQuery s of
        (s1, r) \<Rightarrow> (case fanOut env p rest s1 of (s2, rs) \<Rightarrow> (s2, r # rs)))"
| "branch env p searchQuery s =
     (case query searchQuery of
        None \<Rightarrow> (s, \<lparr>rlearnings = []\<rparr>)
      | Some q \<Rightarrow>
          if q = [] then (s, \<lparr>rlearnings = []\<rparr>)
          else
            (case (case searchAndProcess env p searchQuery q
                          (onProgress (Searching q (nodeId searchQuery)) s) of
                     (s1, Inl e) \<Rightarrow> (s1, Inl e)
                   | (s1, Inr searchResult) \<Rightarrow>
                       let s2 = onProgress
                                  (Node_complete (Some (processedOf searchResult))
                                     (nodeId searchQuery)) s1
                       in if goesDeeper p searchResult
                          then
                            (case deepResearch env (nextParams p searchQuery searchResult)
                                    (s2\<lparr>concurrency := concurrency s2 + 1\<rparr>) of
                               (s3, Inr r) \<Rightarrow> (s3\<lparr>concurrency := concurrency s3 - 1\<rparr>, Inr r)
                             | (s3, Inl e) \<Rightarrow> (s3\<lparr>concurrency := concurrency s3 - 1\<rparr>, Inl e))
                          else (s2, Inr \<lparr>rlearnings = allLearningsOf p searchResult\<rparr>)) of
               (s4, Inr r) \<Rightarrow> (s4, r)
             | (s4, Inl e) \<Rightarrow>
                 (onProgress (Error_step (message e) (nodeId searchQuery)) s4,
                  \<lparr>rlearnings = []\<rparr>)))"
  by pat_completeness auto

termination
  by (relation "inv_image (less_than <*lex*> less_than <*lex*> less_than)
    (\<lambda>x. case x of
       Inl (env, p, s) \<Rightarrow> (nat (p_maxDepth p - p_currentDepth p), 2::nat, 0::nat)
     | Inr (Inl (env, p, qs, s)) \<Rightarrow> (nat (p_maxDepth p - p_currentDepth p), 1, length qs)
     | Inr (Inr (env, p, q, s)) \<Rightarrow> (nat (p_maxDepth p - p_currentDepth p), 0, 0))")
    (auto simp: goesDeeper_def nextParams_def)

section \<open>Reference functions for the stated properties\<close>

text \<open>Deduplication as the specification words it: going through the learnings in order, a
  learning is kept when its \<open>url\<close> has not been seen, and is dropped otherwise.\<close>

fun firstByUrl :: "string option set \<Rightarrow> Learning list \<Rightarrow> Learning list" where
  "firstByUrl seen [] = []"
| "firstByUrl seen (l # ls) =
     (if url l \<in> seen then firstByUrl seen ls else l # firstByUrl (insert (url l) seen) ls)"

text \<open>The events that a run from state \<open>s\<close> to state \<open>s'\<close> has reported.\<close>

definition emitted :: "State \<Rightarrow> State \<Rightarrow> ResearchStep list" where
  "emitted s s' = drop (length (events s)) (events s')"

fun isComplete :: "ResearchStep \<Rightarrow> bool" where
  "isComplete (Complete ls) = True"
| "isComplete step = False"

text \<open>The NodeId of the child that a \<open>generating_query\<close> or \<open>generated_query\<close> event
  announces.\<close>

fun generatedNode :: "ResearchStep \<Rightarrow> NodeId option" where
  "generatedNode (Generating_query q n parent) = Some n"
| "generatedNode (Generated_query q r n) = Some n"
| "generatedNode step = None"

text \<open>A run only appends to the event list and to the call record, and leaves the
  limiter's \<open>concurrency\<close> as it found it.\<close>

definition advances :: "State \<Rightarrow> State \<Rightarrow> bool" where
  "advances s s' \<longleftrightarrow>
     prefix (events s) (events s') \<and> concurrency s' = concurrency s \<and>
     prefix (calls s) (calls s')"

text \<open>An event that the subtree below node \<open>n\<close> may report: it is not the final
  \<open>complete\<close>, and if it announces a generated child, that child's NodeId is longer than
  \<open>n\<close>.\<close>

definition localTo :: "NodeId \<Rightarrow> ResearchStep \<Rightarrow> bool" where
  "localTo n ev \<longleftrightarrow>
     \<not> isComplete ev \<and> (\<forall>m. generatedNode ev = Some m \<longrightarrow> length n < length m)"

definition emits :: "(ResearchStep \<Rightarrow> bool) \<Rightarrow> State \<Rightarrow> State \<Rightarrow> bool" where
  "emits G s s' \<longleftrightarrow> (\<forall>ev \<in> set (emitted s s'). G ev)"

text \<open>A query whose NodeId is that of a child of node \<open>n\<close>.\<close>

definition childOf :: "NodeId \<Rightarrow> SearchQueryNode \<Rightarrow> bool" where
  "childOf n q \<longleftrightarrow> (\<exists>i. nodeId q = childNodeId n i)"

section \<open>Example runs\<close>

text \<open>A small environment: the root's generation yields two queries and one entry with the
  fallback text; the search for \<open>b\<close> fails; every processed result carries one learning and
  one follow-up question; generation below the root ends in a stream error.\<close>

definition demoEnv :: Env where
  "demoEnv =
     \<lparr>t_language = (\<lambda>c. c),
      t_invalidStructuredOutput = ''invalid'',
      searchQueriesStream = (\<lambda>n q ls b l sl.
        if n = ''0''
        then ([Reasoning_chunk ''r'',
               Object_chunk \<lparr>queries = Some [\<lparr>query = Some ''a'', researchGoal = Some ''ga''\<rparr>,
                                             \<lparr>query = Some ''undefined'', researchGoal = None\<rparr>,
                                             \<lparr>query = Some ''b'', researchGoal = Some ''gb''\<rparr>]\<rparr>],
              None)
        else ([Error_chunk ''down''], None)),
      webSearch = (\<lambda>n q l.
        if q = ''b'' then Inl (Thrown (Some ''boom''))
        else Inr [\<lparr>wurl = ''u'', wtitle = Some ''T'', wcontent = ''c''\<rparr>]),
      searchResultStream = (\<lambda>n q rs b l.
        ([Object_chunk \<lparr>plearnings = Some [\<lparr>url = Some ''u'', learning = Some ''L'', title = None\<rparr>],
                        pfollowUpQuestions = Some [''f'']\<rparr>],
         None))\<rparr>"


definition rootParams :: Params where
  "rootParams =
     \<lparr>p_query = ''foo'', p_breadth = 2, p_maxDepth = 1, p_languageCode = ''en'',
      p_searchLanguageCode = None, p_learnings = None, p_currentDepth = 0,
      p_nodeId = ''0'', p_retryNode = None\<rparr>"

definition startState :: State where
  "startState = \<lparr>events = [], concurrency = 2, calls = []\<rparr>"

text \<open>Two branches whose learnings share the url \<open>u\<close>; no follow-up questions.\<close>

definition overlapEnv :: Env where
  "overlapEnv =
     \<lparr>t_language = (\<lambda>c. c),
      t_invalidStructuredOutput = ''invalid'',
      searchQueriesStream = (\<lambda>n q ls b l sl.
        ([Object_chunk \<lparr>queries = Some [\<lparr>query = Some ''a'', researchGoal = Some ''ga''\<rparr>,
                                        \<lparr>query = Some ''b'', researchGoal = Some ''gb''\<rparr>]\<rparr>],
         None)),
      webSearch = (\<lambda>n q l. Inr [\<lparr>wurl = ''u'', wtitle = Some ''T'', wcontent = ''c''\<rparr>]),
      searchResultStream = (\<lambda>n q rs b l.
        if q = ''a''
        then ([Object_chunk
                 \<lparr>plearnings = Some [\<lparr>url = Some ''u'', learning = Some ''A'', title = None\<rparr>,
                                     \<lparr>url = Some ''v'', learning = Some ''B'', title = None\<rparr>],
                  pfollowUpQuestions = None\<rparr>], None)
        else ([Object_chunk
                 \<lparr>plearnings = Some [\<lparr>url = Some ''u'', learning = Some ''C'', title = None\<rparr>,
                                     \<lparr>url = Some ''w'', learning = Some ''D'', title = None\<rparr>],
                  pfollowUpQuestions = None\<rparr>], None))\<rparr>"

text \<open>Generation that ends without an acceptable value.\<close>

definition silentEnv :: Env where
  "silentEnv = demoEnv\<lparr>searchQueriesStream := (\<lambda>n q ls b l sl. ([Bad_end], None))\<rparr>"

text \<open>A root call that is handed learnings, and a retry of node \<open>0-1\<close>.\<close>

definition inheritingParams :: Params where
  "inheritingParams =
     rootParams\<lparr>p_learnings :=
       Some [\<lparr>url = Some ''u'', learning = Some ''known'', title = None\<rparr>]\<rparr>"

definition retryParams :: Params where
  "retryParams =
     rootParams\<lparr>p_retryNode := Some \<lparr>rid = ''0-1'', rlabel = ''X'', rresearchGoal = Some ''Y''\<rparr>\<rparr>"

text \<open>A call that is already at the maximal depth, and an environment whose search for
  \<open>a\<close> fails.\<close>

definition leafParams :: Params where
  "leafParams = rootParams\<lparr>p_maxDepth := 0\<rparr>"


section \<open>The limiter under interleaving\<close>

text \<open>
  The orchestrator above runs the branches of a node one after the other. The limiter is
  about branches that overlap in time, so its interplay with the orchestrator is modelled
  once more, with the scheduler's choices explicit and the progress events left out.

  What a unit of work does with the limiter is read off the orchestrator: \<open>recursesWith\<close>
  gives the arguments of the recursive call that a branch makes, if it makes one, and
  \<open>unitsOf\<close> the child queries that a call hands to the limiter. Neither depends on the
  state in which it is evaluated (lemmas \<open>searchAndProcess_result\<close> and
  \<open>obtainQueries_result\<close> below), so both are evaluated in the state \<open>idle\<close>.
\<close>

definition idle :: State where
  "idle = \<lparr>events = [], concurrency = 0, calls = []\<rparr>"

definition recursesWith :: "Env \<Rightarrow> Params \<Rightarrow> SearchQueryNode \<Rightarrow> Params option" where
  "recursesWith env p sq =
     (case query sq of
        None \<Rightarrow> None
      | Some q \<Rightarrow>
          if q = [] then None
          else (case snd (searchAndProcess env p sq q idle) of
                  Inl e \<Rightarrow> None
                | Inr sr \<Rightarrow> if goesDeeper p sr then Some (nextParams p sq sr) else None))"

definition unitsOf :: "Env \<Rightarrow> Params \<Rightarrow> SearchQueryNode list" where
  "unitsOf env p =
     (case snd (obtainQueries env p idle) of
        (sqs, None) \<Rightarrow> sqs
      | (sqs, Some e) \<Rightarrow> [])"





text \<open>An environment in which every generation yields two queries and every processed
  result has a follow-up question.\<close>

definition wideEnv :: Env where
  "wideEnv = overlapEnv\<lparr>searchResultStream := (\<lambda>n q rs b l.
     ([Object_chunk \<lparr>plearnings = Some [\<lparr>url = Some ''u'', learning = Some ''L'', title = None\<rparr>],
                     pfollowUpQuestions = Some [''f'']\<rparr>],
      None))\<rparr>"



declare decimal.simps [simp del]
declare deepResearch.simps [simp del]
declare branch.simps [simp del]

section \<open>Properties of node addressing\<close>

lemma parentOf_append:
  assumes "CHR ''-'' \<notin> set r"
  shows "parentOf (p @ CHR ''-'' # r) = p"
proof -
  have "\<forall>c \<in> set (rev r). c \<noteq> CHR ''-''"
    using assms by auto
  then have "dropWhile (\<lambda>c. c \<noteq> CHR ''-'') (rev r @ CHR ''-'' # rev p) = CHR ''-'' # rev p"
    by (subst dropWhile_append2) simp_all
  then show ?thesis by (simp add: parentOf_def)
qed

lemma decimal_digits: "set (decimal n) \<subseteq> set ''0123456789''"
proof (induction n rule: decimal.induct)
  case (1 n)
  show ?case
  proof (cases "n < 10")
    case True
    then have "digit n \<in> set ''0123456789''"
      unfolding digit_def by (intro nth_mem) simp
    with True show ?thesis
      by (subst decimal.simps) simp
  next
    case False
    have "n mod 10 < 10" by simp
    then have "digit (n mod 10) \<in> set ''0123456789''"
      unfolding digit_def by (intro nth_mem) simp
    with False "1.IH" show ?thesis
      by (subst decimal.simps) simp
  qed
qed

lemma render_nonneg: "0 \<le> i \<Longrightarrow> CHR ''-'' \<notin> set (render i)"
  using decimal_digits [of "nat i"] by (auto simp: render_def)

lemma render_12: "render 12 = ''12''"
  by (simp add: render_def decimal.simps digit_def)

text \<open>
  C8. For every parent NodeId \<open>p\<close> and index \<open>i\<close>, \<open>childNodeId p i\<close> is the string \<open>p\<close>,
  a hyphen, and the decimal rendering of \<open>i\<close>; and when that rendering contains no hyphen,
  the prefix of \<open>childNodeId p i\<close> before its last hyphen is \<open>p\<close> again. That is so for
  every index \<open>i \<ge> 0\<close>, which covers the array positions the orchestrator passes.
\<close>

theorem childNodeId_parentOf:
  "childNodeId p i = p @ ''-'' @ render i \<and>
   (CHR ''-'' \<notin> set (render i) \<longrightarrow> parentOf (childNodeId p i) = p) \<and>
   (0 \<le> i \<longrightarrow> parentOf (childNodeId p i) = p)"
  by (simp add: childNodeId_def parentOf_append render_nonneg)

theorem childNodeId_parentOf_witness:
  "childNodeId ''0-3'' 12 = ''0-3-12'' \<and> CHR ''-'' \<notin> set (render 12) \<and>
   parentOf (childNodeId ''0-3'' 12) = ''0-3''"
proof -
  have r: "CHR ''-'' \<notin> set (render 12)"
    by (simp add: render_12)
  have c: "childNodeId ''0-3'' 12 = ''0-3-12''"
    by (simp add: childNodeId_def render_12)
  from childNodeId_parentOf [of "''0-3''" 12] r
  have "parentOf (childNodeId ''0-3'' 12) = ''0-3''"
    by blast
  with r c show ?thesis
    by blast
qed

section \<open>Properties of a settled snapshot\<close>

lemma truncate_assignIds: "map PartialSearchQuery.truncate (assignIds n i qs) = qs"
  by (induction qs arbitrary: i)
     (simp_all add: PartialSearchQuery.truncate_def PartialSearchQuery.extend_def)

lemma length_assignIds: "length (assignIds n i qs) = length qs"
  by (induction qs arbitrary: i) simp_all

lemma nth_assignIds:
  "k < length qs \<Longrightarrow> nodeId (assignIds n i qs ! k) = childNodeId n (i + int k)"
proof (induction qs arbitrary: i k)
  case Nil
  then show ?case by simp
next
  case (Cons q qs)
  show ?case
  proof (cases k)
    case 0
    then show ?thesis by (simp add: PartialSearchQuery.extend_def)
  next
    case (Suc j)
    with Cons.prems have "j < length qs" by simp
    from Cons.IH [OF this, of "i + 1"] Suc show ?thesis by (simp add: algebra_simps)
  qed
qed

text \<open>
  C9. When the generation loop meets an object snapshot whose \<open>queries\<close> array is \<open>qs\<close>, it
  continues with \<open>searchQueries = settle n qs\<close> and reports one \<open>generating_query\<close> event per
  entry. Without their NodeIds the entries of \<open>settle n qs\<close> are, in the order of the model
  output, exactly the entries of \<open>qs\<close> whose query text is not the string \<open>undefined\<close>; and
  the entry at position \<open>k\<close> of the filtered list has the NodeId \<open>childNodeId n k\<close>.
\<close>

theorem settle_snapshot:
  "genLoop env n (Object_chunk \<lparr>queries = Some qs\<rparr> # cs) thr searchQueries s =
     genLoop env n cs thr (settle n qs) (reportGenerating n (settle n qs) s) \<and>
   map PartialSearchQuery.truncate (settle n qs) =
     filter (\<lambda>q. query q \<noteq> Some ''undefined'') qs \<and>
   (\<forall>k < length (settle n qs). nodeId (settle n qs ! k) = childNodeId n (int k))"
  by (simp add: settle_def truncate_assignIds length_assignIds nth_assignIds Let_def)

theorem settle_snapshot_witness:
  "map PartialSearchQuery.truncate
     (settle ''0'' [\<lparr>query = Some ''a'', researchGoal = Some ''g''\<rparr>,
                    \<lparr>query = Some ''undefined'', researchGoal = None\<rparr>,
                    \<lparr>query = None, researchGoal = Some ''h''\<rparr>]) =
     [\<lparr>query = Some ''a'', researchGoal = Some ''g''\<rparr>,
      \<lparr>query = None, researchGoal = Some ''h''\<rparr>] \<and>
   (1::nat) < length (settle ''0'' [\<lparr>query = Some ''a'', researchGoal = Some ''g''\<rparr>,
                    \<lparr>query = Some ''undefined'', researchGoal = None\<rparr>,
                    \<lparr>query = None, researchGoal = Some ''h''\<rparr>]) \<and>
   nodeId (settle ''0'' [\<lparr>query = Some ''a'', researchGoal = Some ''g''\<rparr>,
                    \<lparr>query = Some ''undefined'', researchGoal = None\<rparr>,
                    \<lparr>query = None, researchGoal = Some ''h''\<rparr>] ! 1) = childNodeId ''0'' 1"
proof -
  let ?qs = "[\<lparr>query = Some ''a'', researchGoal = Some ''g''\<rparr>,
              \<lparr>query = Some ''undefined'', researchGoal = None\<rparr>,
              \<lparr>query = None, researchGoal = Some ''h''\<rparr>]"
  have len: "(1::nat) < length (settle ''0'' ?qs)"
    by (simp add: settle_def)
  from settle_snapshot [of _ "''0''" ?qs] len show ?thesis
    by simp
qed

section \<open>Deduplication, step by step\<close>

lemma dedupStep_pair:
  "dedupStep (m, acc) x =
     (if m (url x) = None then (m(url x \<mapsto> True), acc @ [x]) else (m, acc))"
  by (simp add: dedupStep_def)

lemma foldl_dedupStep:
  "foldl dedupStep (m, acc) xs = (m', acc') \<Longrightarrow> acc' = acc @ firstByUrl (dom m) xs"
proof (induction xs arbitrary: m acc)
  case Nil
  then show ?case by simp
next
  case (Cons x xs)
  show ?case
  proof (cases "m (url x)")
    case None
    with Cons.prems have "foldl dedupStep (m(url x \<mapsto> True), acc @ [x]) xs = (m', acc')"
      by (simp add: dedupStep_pair)
    from Cons.IH [OF this] None show ?thesis
      by (simp add: domIff del: fun_upd_apply)
  next
    case (Some b)
    with Cons.prems have "foldl dedupStep (m, acc) xs = (m', acc')"
      by (simp add: dedupStep_pair)
    from Cons.IH [OF this] Some show ?thesis
      by (simp add: domIff)
  qed
qed

lemma foldl_nested:
  "foldl (\<lambda>acc result. foldl dedupStep acc (rlearnings result)) a results =
   foldl dedupStep a (concat (map rlearnings results))"
  by (induction results arbitrary: a) simp_all

lemma conclude_firstByUrl:
  "conclude results = firstByUrl {} (concat (map rlearnings results))"
proof -
  obtain m' acc' where h: "foldl dedupStep (Map.empty, []) (concat (map rlearnings results)) = (m', acc')"
    by (cases "foldl dedupStep (Map.empty, []) (concat (map rlearnings results))")
  from foldl_dedupStep [OF h] h show ?thesis
    by (simp add: conclude_def foldl_nested)
qed

lemma remdups_snoc:
  "remdups (xs @ [y]) = remdups (filter (\<lambda>z. z \<noteq> y) xs) @ [y]"
  by (induction xs) auto

lemma first_occurrence_Cons:
  "rev (remdups (rev (y # ys))) = y # rev (remdups (rev (filter (\<lambda>z. z \<noteq> y) ys)))"
  by (simp add: remdups_snoc rev_filter)

lemma filter_filter_insert:
  "filter (\<lambda>z. z \<noteq> u) (filter (\<lambda>z. z \<notin> S) ys) = filter (\<lambda>z. z \<notin> insert u S) ys"
  by (induction ys) auto

lemma url_firstByUrl:
  "map url (firstByUrl S xs) = rev (remdups (rev (filter (\<lambda>u. u \<notin> S) (map url xs))))"
proof (induction xs arbitrary: S)
  case Nil
  then show ?case by simp
next
  case (Cons x xs)
  show ?case
  proof (cases "url x \<in> S")
    case True
    with Cons.IH [of S] show ?thesis by simp
  next
    case False
    have "map url (firstByUrl S (x # xs)) = url x # map url (firstByUrl (insert (url x) S) xs)"
      using False by simp
    also have "\<dots> = url x # rev (remdups (rev (filter (\<lambda>u. u \<notin> insert (url x) S) (map url xs))))"
      by (simp only: Cons.IH)
    also have "\<dots> = rev (remdups (rev (url x # filter (\<lambda>u. u \<notin> S) (map url xs))))"
      by (simp only: first_occurrence_Cons filter_filter_insert)
    finally show ?thesis using False by simp
  qed
qed

lemma find_firstByUrl:
  "l \<in> set (firstByUrl S xs) \<Longrightarrow> url l \<notin> S \<and> find (\<lambda>x. url x = url l) xs = Some l"
proof (induction xs arbitrary: S)
  case Nil
  then show ?case by simp
next
  case (Cons x xs)
  show ?case
  proof (cases "url x \<in> S")
    case True
    with Cons.prems have "l \<in> set (firstByUrl S xs)" by simp
    from Cons.IH [OF this] True show ?thesis by auto
  next
    case False
    show ?thesis
    proof (cases "l = x")
      case True
      with False show ?thesis by simp
    next
      case neq: False
      with False Cons.prems have "l \<in> set (firstByUrl (insert (url x) S) xs)" by simp
      from Cons.IH [OF this] show ?thesis by auto
    qed
  qed
qed

section \<open>The frame of a run\<close>

lemma advances_refl [simp]: "advances s s"
  by (simp add: advances_def)

lemma advances_trans: "advances s s1 \<Longrightarrow> advances s1 s2 \<Longrightarrow> advances s s2"
  by (auto simp: advances_def)

lemma advances_onProgress [simp]: "advances s (onProgress step s)"
  by (simp add: advances_def onProgress_def)

lemma advances_onProgress': "advances s s1 \<Longrightarrow> advances s (onProgress step s1)"
  by (rule advances_trans [OF _ advances_onProgress])

lemma advances_reportGenerating: "advances s (reportGenerating n qs s)"
proof (induction qs arbitrary: s)
  case Nil
  show ?case by simp
next
  case (Cons q qs)
  have "advances s (onProgress (Generating_query q (nodeId q) n) s)" by simp
  from advances_trans [OF this Cons.IH] show ?case by simp
qed

lemma advances_reportGenerated: "advances s (reportGenerated qs s)"
proof (induction qs arbitrary: s)
  case Nil
  show ?case by simp
next
  case (Cons q qs)
  have "advances s (onProgress (Generated_query (query q) q (nodeId q)) s)" by simp
  from advances_trans [OF this Cons.IH] show ?case by simp
qed

lemma advances_genLoop_fst: "advances s (fst (genLoop env n cs thr sq s))"
proof (induction env n cs thr sq s rule: genLoop.induct)
  case (1 env n thr searchQueries s)
  show ?case by simp
next
  case (2 env n v cs thr searchQueries s)
  show ?case
  proof (cases "queries v")
    case None
    with 2 show ?thesis by simp
  next
    case (Some qs)
    from "2.IH"(2) [OF Some refl]
    have "advances (reportGenerating n (settle n qs) s)
            (fst (genLoop env n cs thr (settle n qs) (reportGenerating n (settle n qs) s)))" .
    from advances_trans [OF advances_reportGenerating this] Some show ?thesis
      by (simp add: Let_def)
  qed
next
  case (3 env n delta cs thr searchQueries s)
  from advances_trans [OF advances_onProgress "3.IH"] show ?case by simp
next
  case (4 env n msg cs thr searchQueries s)
  show ?case by simp
next
  case (5 env n cs thr searchQueries s)
  show ?case by simp
qed

lemma advances_genLoop: "genLoop env n cs thr sq s = (s', sq', t) \<Longrightarrow> advances s s'"
  using advances_genLoop_fst [of s env n cs thr sq] by simp

lemma advances_generateQueries:
  assumes "generateQueries env p s = (s', sq', t)"
  shows "advances s s'"
proof -
  obtain cs thr where st: "searchQueriesStream env (p_nodeId p) (p_query p)
         (map_option (map learning) (p_learnings p)) (p_breadth p)
         (t_language env (p_languageCode p)) (searchLanguageOf env p) = (cs, thr)"
    by (cases "searchQueriesStream env (p_nodeId p) (p_query p)
         (map_option (map learning) (p_learnings p)) (p_breadth p)
         (t_language env (p_languageCode p)) (searchLanguageOf env p)")
  obtain s1 sq1 t1 where gl: "genLoop env (p_nodeId p) cs thr [] s = (s1, sq1, t1)"
    by (cases "genLoop env (p_nodeId p) cs thr [] s")
  have a1: "advances s s1"
    by (rule advances_genLoop [OF gl])
  show ?thesis
  proof (cases t1)
    case None
    with assms st gl
    have "s' = reportGenerated sq1 (onProgress (Node_complete None (p_nodeId p)) s1)"
      by (auto simp: generateQueries_def)
    with a1 show ?thesis
      by (metis advances_trans advances_onProgress advances_reportGenerated)
  next
    case (Some e)
    with assms st gl have "s' = s1"
      by (auto simp: generateQueries_def)
    with a1 show ?thesis by simp
  qed
qed

lemma advances_obtainQueries: "obtainQueries env p s = (s', sq', t) \<Longrightarrow> advances s s'"
  by (auto simp: obtainQueries_def advances_generateQueries split: option.splits if_splits)

lemma advances_procLoop_fst: "advances s (fst (procLoop env q n cs thr sr s))"
proof (induction env q n cs thr sr s rule: procLoop.induct)
  case (2 env q n v cs thr searchResult s)
  from advances_trans [OF advances_onProgress "2.IH"] show ?case by simp
next
  case (3 env q n delta cs thr searchResult s)
  from advances_trans [OF advances_onProgress "3.IH"] show ?case by simp
qed simp_all

lemma advances_procLoop: "procLoop env q n cs thr sr s = (s', sr', t) \<Longrightarrow> advances s s'"
  using advances_procLoop_fst [of s env q n cs thr sr] by simp

lemma advances_searchAndProcess:
  assumes "searchAndProcess env p sq q s = (s', res)"
  shows "advances s s'"
proof (cases "webSearch env (nodeId sq) q (p_languageCode p)")
  case (Inl e)
  with assms show ?thesis by (simp add: searchAndProcess_def)
next
  case (Inr results)
  obtain cs thr where st: "searchResultStream env (nodeId sq) q results
      (nextBreadthOf (p_breadth p)) (t_language env (p_languageCode p)) = (cs, thr)"
    by (cases "searchResultStream env (nodeId sq) q results
      (nextBreadthOf (p_breadth p)) (t_language env (p_languageCode p))")
  obtain s2 sr t where pl: "procLoop env q (nodeId sq) cs thr
      \<lparr>plearnings = None, pfollowUpQuestions = None\<rparr>
      (onProgress (Search_complete results (nodeId sq)) s) = (s2, sr, t)"
    by (cases "procLoop env q (nodeId sq) cs thr
      \<lparr>plearnings = None, pfollowUpQuestions = None\<rparr>
      (onProgress (Search_complete results (nodeId sq)) s)")
  from assms Inr st pl have "s' = s2"
    by (auto simp: searchAndProcess_def split: option.splits)
  with advances_trans [OF advances_onProgress advances_procLoop [OF pl]] show ?thesis
    by simp
qed


section \<open>The cases of the orchestrator\<close>

lemma deepResearch_result:
  assumes "obtainQueries env p (s\<lparr>calls := calls s @ [(p, concurrency s)]\<rparr>) = (s1, sqs, t)"
  shows "deepResearch env p s =
     (case t of
        Some e \<Rightarrow>
          (onProgress
             (Error_step
                (Some (case message e of None \<Rightarrow> ''Something went wrong'' | Some m \<Rightarrow> m))
                (effectiveNodeId p)) s1,
           Inr \<lparr>rlearnings = []\<rparr>)
      | None \<Rightarrow>
          (case fanOut env p sqs s1 of
             (s2, results) \<Rightarrow>
               (if effectiveNodeId p = ''0'' then onProgress (Complete (conclude results)) s2
                else s2,
                Inr \<lparr>rlearnings = conclude results\<rparr>)))"
  using assms by (simp add: deepResearch.simps Let_def split: prod.splits option.splits)

lemma branch_skip:
  "query sq = None \<or> query sq = Some [] \<Longrightarrow> branch env p sq s = (s, \<lparr>rlearnings = []\<rparr>)"
  by (auto simp: branch.simps)

lemma branch_thrown:
  assumes "query sq = Some q" "q \<noteq> []"
    and "searchAndProcess env p sq q (onProgress (Searching q (nodeId sq)) s) = (s1, Inl e)"
  shows "branch env p sq s =
     (onProgress (Error_step (message e) (nodeId sq)) s1, \<lparr>rlearnings = []\<rparr>)"
  using assms by (simp add: branch.simps)

lemma branch_leaf:
  assumes "query sq = Some q" "q \<noteq> []"
    and "searchAndProcess env p sq q (onProgress (Searching q (nodeId sq)) s) = (s1, Inr sr)"
    and "\<not> goesDeeper p sr"
  shows "branch env p sq s =
     (onProgress (Node_complete (Some (processedOf sr)) (nodeId sq)) s1,
      \<lparr>rlearnings = allLearningsOf p sr\<rparr>)"
  using assms by (simp add: branch.simps Let_def)

lemma branch_deeper:
  assumes "query sq = Some q" "q \<noteq> []"
    and "searchAndProcess env p sq q (onProgress (Searching q (nodeId sq)) s) = (s1, Inr sr)"
    and "goesDeeper p sr"
    and "deepResearch env (nextParams p sq sr)
           ((onProgress (Node_complete (Some (processedOf sr)) (nodeId sq)) s1)
              \<lparr>concurrency :=
                 concurrency (onProgress (Node_complete (Some (processedOf sr)) (nodeId sq)) s1) + 1\<rparr>)
         = (s3, res)"
  shows "branch env p sq s =
     (case res of
        Inr r \<Rightarrow> (s3\<lparr>concurrency := concurrency s3 - 1\<rparr>, r)
      | Inl e \<Rightarrow>
          (onProgress (Error_step (message e) (nodeId sq)) (s3\<lparr>concurrency := concurrency s3 - 1\<rparr>),
           \<lparr>rlearnings = []\<rparr>))"
  using assms by (simp add: branch.simps Let_def split: sum.splits)



section \<open>Frame of the recursion\<close>


lemma frame:
  "advances s (fst (deepResearch env p s)) \<and>
   (\<exists>more. calls (fst (deepResearch env p s)) = calls s @ (p, concurrency s) # more)"
  "advances s (fst (fanOut env p sqs s))"
  "advances s (fst (branch env p sq s))"
proof (induction env p s and env p sqs s and env p sq s rule: deepResearch_fanOut_branch.induct)
  case (1 env p s)
  let ?s0 = "s\<lparr>calls := calls s @ [(p, concurrency s)]\<rparr>"
  obtain s1 sqs t where oq: "obtainQueries env p ?s0 = (s1, sqs, t)"
    by (cases "obtainQueries env p ?s0")
  have a1: "advances ?s0 s1"
    by (rule advances_obtainQueries [OF oq])
  have "advances ?s0 (fst (deepResearch env p s))"
  proof (cases t)
    case (Some e)
    with deepResearch_result [OF oq] a1 show ?thesis
      by (simp add: advances_onProgress')
  next
    case None
    obtain s2 results where fo: "fanOut env p sqs s1 = (s2, results)"
      by (cases "fanOut env p sqs s1")
    from "1.IH" [OF refl refl oq [symmetric] refl None] fo have "advances s1 s2"
      by simp
    with a1 have "advances ?s0 s2"
      by (rule advances_trans)
    with deepResearch_result [OF oq] None fo show ?thesis
      by (simp add: advances_onProgress')
  qed
  then show ?case
    by (auto simp: advances_def prefix_def)
next
  case (2 env p s)
  show ?case by simp
next
  case (3 env p searchQuery rest s)
  obtain s1 r where br: "branch env p searchQuery s = (s1, r)"
    by (cases "branch env p searchQuery s")
  obtain s2 rs where fo: "fanOut env p rest s1 = (s2, rs)"
    by (cases "fanOut env p rest s1")
  from "3.IH"(1) br have "advances s s1" by simp
  moreover from "3.IH"(2) [OF br [symmetric]] fo have "advances s1 s2" by simp
  ultimately have "advances s s2" by (rule advances_trans)
  with br fo show ?case by simp
next
  case (4 env p searchQuery s)
  show ?case
  proof (cases "query searchQuery = None \<or> query searchQuery = Some []")
    case True
    from branch_skip [OF this] show ?thesis by simp
  next
    case False
    then obtain q where q: "query searchQuery = Some q" "q \<noteq> []"
      by auto
    let ?s0 = "onProgress (Searching q (nodeId searchQuery)) s"
    obtain s1 res where sp: "searchAndProcess env p searchQuery q ?s0 = (s1, res)"
      by (cases "searchAndProcess env p searchQuery q ?s0")
    have a1: "advances s s1"
      by (rule advances_trans [OF advances_onProgress advances_searchAndProcess [OF sp]])
    show ?thesis
    proof (cases res)
      case (Inl e)
      with branch_thrown [OF q] sp a1 show ?thesis
        by (simp add: advances_onProgress')
    next
      case (Inr sr)
      let ?s2 = "onProgress (Node_complete (Some (processedOf sr)) (nodeId searchQuery)) s1"
      have a2: "advances s ?s2"
        by (rule advances_onProgress' [OF a1])
      show ?thesis
      proof (cases "goesDeeper p sr")
        case False
        from branch_leaf [OF q _ False] sp Inr a2 show ?thesis
          by simp
      next
        case True
        let ?s2' = "?s2\<lparr>concurrency := concurrency ?s2 + 1\<rparr>"
        obtain s3 res' where dr: "deepResearch env (nextParams p searchQuery sr) ?s2' = (s3, res')"
          by (cases "deepResearch env (nextParams p searchQuery sr) ?s2'")
        from "4.IH" [OF q sp [symmetric] Inr refl True] dr
        have "advances ?s2' s3" by simp
        then have "advances ?s2 (s3\<lparr>concurrency := concurrency s3 - 1\<rparr>)"
          by (simp add: advances_def)
        with a2 have "advances s (s3\<lparr>concurrency := concurrency s3 - 1\<rparr>)"
          by (rule advances_trans)
        with branch_deeper [OF q _ True dr] sp Inr show ?thesis
          by (simp add: advances_onProgress' split: sum.splits)
      qed
    qed
  qed
qed

section \<open>Emitted events\<close>

lemma emitted_self [simp]: "emitted s s = []"
  by (simp add: emitted_def)

lemma emitted_append:
  "advances s s1 \<Longrightarrow> advances s1 s2 \<Longrightarrow> emitted s s2 = emitted s s1 @ emitted s1 s2"
  by (auto simp: advances_def emitted_def prefix_def)

lemma events_emitted: "advances s s' \<Longrightarrow> events s' = events s @ emitted s s'"
  by (auto simp: advances_def emitted_def prefix_def)

lemma emitted_onProgress [simp]: "emitted s (onProgress step s) = [step]"
  by (simp add: emitted_def onProgress_def)

lemma emitted_onProgress':
  "advances s s1 \<Longrightarrow> emitted s (onProgress step s1) = emitted s s1 @ [step]"
  using emitted_append [of s s1 "onProgress step s1"] by simp

lemma emitted_concurrency [simp]:
  "emitted s (s'\<lparr>concurrency := c\<rparr>) = emitted s s'"
  "emitted (s\<lparr>concurrency := c\<rparr>) s' = emitted s s'"
  by (simp_all add: emitted_def)

lemma emitted_calls [simp]:
  "emitted s (s'\<lparr>calls := c\<rparr>) = emitted s s'"
  "emitted (s\<lparr>calls := c\<rparr>) s' = emitted s s'"
  by (simp_all add: emitted_def)

lemma emits_refl [simp]: "emits G s s"
  by (simp add: emits_def)

lemma emits_trans:
  assumes "advances s s1" "advances s1 s2" "emits G s s1" "emits G s1 s2"
  shows "emits G s s2"
proof -
  have "emitted s s2 = emitted s s1 @ emitted s1 s2"
    using assms(1,2) by (rule emitted_append)
  with assms(3,4) show ?thesis
    by (auto simp: emits_def)
qed

lemma emits_onProgress: "G step \<Longrightarrow> emits G s (onProgress step s)"
  by (simp add: emits_def)

lemma emits_onProgress':
  "advances s s1 \<Longrightarrow> emits G s s1 \<Longrightarrow> G step \<Longrightarrow> emits G s (onProgress step s1)"
  by (simp add: emits_def emitted_onProgress')

lemma emits_mono: "emits G s s' \<Longrightarrow> (\<And>ev. G ev \<Longrightarrow> H ev) \<Longrightarrow> emits H s s'"
  by (auto simp: emits_def)

section \<open>Node ids of the children\<close>

lemma length_childNodeId: "length n < length (childNodeId n i)"
  by (simp add: childNodeId_def)

lemma childNodeId_not_root: "childNodeId n i \<noteq> ''0''"
proof
  assume "childNodeId n i = ''0''"
  then have "set (childNodeId n i) = set ''0''" by simp
  then show False by (auto simp: childNodeId_def)
qed

lemma childOf_assignIds: "q \<in> set (assignIds n i qs) \<Longrightarrow> childOf n q"
  by (induction qs arbitrary: i) (auto simp: childOf_def PartialSearchQuery.extend_def)

lemma childOf_settle: "q \<in> set (settle n qs) \<Longrightarrow> childOf n q"
  by (auto simp: settle_def dest: childOf_assignIds)

lemma localTo_simps [simp]:
  "localTo n (Generating_query q m par) \<longleftrightarrow> length n < length m"
  "localTo n (Generated_query qq q m) \<longleftrightarrow> length n < length m"
  "localTo n (Generating_query_reasoning d m)"
  "localTo n (Searching x m)"
  "localTo n (Search_complete rs m)"
  "localTo n (Processing_serach_result x sr m)"
  "localTo n (Processing_serach_result_reasoning d m)"
  "localTo n (Node_complete r m)"
  "localTo n (Error_step msg m)"
  "\<not> localTo n (Complete ls)"
  by (simp_all add: localTo_def)

lemma emits_reportGenerating:
  "(\<forall>q \<in> set qs. childOf n q) \<Longrightarrow> emits (localTo n) s (reportGenerating n qs s)"
proof (induction qs arbitrary: s)
  case Nil
  show ?case by simp
next
  case (Cons q qs)
  let ?s1 = "onProgress (Generating_query q (nodeId q) n) s"
  from Cons.prems have "localTo n (Generating_query q (nodeId q) n)"
    by (auto simp: childOf_def length_childNodeId)
  then have "emits (localTo n) s ?s1"
    by (rule emits_onProgress)
  moreover from Cons have "emits (localTo n) ?s1 (reportGenerating n qs ?s1)"
    by simp
  ultimately have "emits (localTo n) s (reportGenerating n qs ?s1)"
    using emits_trans advances_onProgress advances_reportGenerating by blast
  then show ?case by simp
qed

lemma emits_reportGenerated:
  "(\<forall>q \<in> set qs. childOf n q) \<Longrightarrow> emits (localTo n) s (reportGenerated qs s)"
proof (induction qs arbitrary: s)
  case Nil
  show ?case by simp
next
  case (Cons q qs)
  let ?s1 = "onProgress (Generated_query (query q) q (nodeId q)) s"
  from Cons.prems have "localTo n (Generated_query (query q) q (nodeId q))"
    by (auto simp: childOf_def length_childNodeId)
  then have "emits (localTo n) s ?s1"
    by (rule emits_onProgress)
  moreover from Cons have "emits (localTo n) ?s1 (reportGenerated qs ?s1)"
    by simp
  ultimately have "emits (localTo n) s (reportGenerated qs ?s1)"
    using emits_trans advances_onProgress advances_reportGenerated by blast
  then show ?case by simp
qed

lemma genLoop_children:
  "genLoop env n cs thr sq s = (s', sq', t) \<Longrightarrow> (\<forall>q \<in> set sq. childOf n q)
    \<Longrightarrow> (\<forall>q \<in> set sq'. childOf n q) \<and> emits (localTo n) s s'"
proof (induction env n cs thr sq s rule: genLoop.induct)
  case (1 env n thr searchQueries s)
  then show ?case by simp
next
  case (2 env n v cs thr searchQueries s)
  show ?case
  proof (cases "queries v")
    case None
    with 2 show ?thesis by simp
  next
    case (Some qs)
    let ?s1 = "reportGenerating n (settle n qs) s"
    have ch: "\<forall>q \<in> set (settle n qs). childOf n q"
      by (simp add: childOf_settle)
    from "2.prems"(1) Some have gl: "genLoop env n cs thr (settle n qs) ?s1 = (s', sq', t)"
      by (simp add: Let_def)
    from "2.IH"(2) [OF Some refl gl ch]
    have r: "(\<forall>q \<in> set sq'. childOf n q)" "emits (localTo n) ?s1 s'"
      by simp_all
    have "emits (localTo n) s ?s1"
      by (rule emits_reportGenerating [OF ch])
    with r(2) have "emits (localTo n) s s'"
      using emits_trans advances_reportGenerating advances_genLoop [OF gl] by blast
    with r(1) show ?thesis by simp
  qed
next
  case (3 env n delta cs thr searchQueries s)
  let ?s1 = "onProgress (Generating_query_reasoning delta n) s"
  from "3.prems"(1) have gl: "genLoop env n cs thr searchQueries ?s1 = (s', sq', t)"
    by simp
  from "3.IH" [OF gl "3.prems"(2)]
  have r: "(\<forall>q \<in> set sq'. childOf n q)" "emits (localTo n) ?s1 s'"
    by simp_all
  have "emits (localTo n) s ?s1"
    by (rule emits_onProgress) simp
  with r(2) have "emits (localTo n) s s'"
    using emits_trans advances_onProgress advances_genLoop [OF gl] by blast
  with r(1) show ?case by simp
next
  case (4 env n msg cs thr searchQueries s)
  then show ?case by (auto intro: emits_onProgress)
next
  case (5 env n cs thr searchQueries s)
  then show ?case by (auto intro: emits_onProgress)
qed

lemma generateQueries_children:
  assumes "generateQueries env p s = (s', sq', t)"
  shows "(\<forall>q \<in> set sq'. childOf (p_nodeId p) q) \<and> emits (localTo (p_nodeId p)) s s'"
proof -
  let ?n = "p_nodeId p"
  obtain cs thr where st: "searchQueriesStream env ?n (p_query p)
         (map_option (map learning) (p_learnings p)) (p_breadth p)
         (t_language env (p_languageCode p)) (searchLanguageOf env p) = (cs, thr)"
    by (cases "searchQueriesStream env ?n (p_query p)
         (map_option (map learning) (p_learnings p)) (p_breadth p)
         (t_language env (p_languageCode p)) (searchLanguageOf env p)")
  obtain s1 sq1 t1 where gl: "genLoop env ?n cs thr [] s = (s1, sq1, t1)"
    by (cases "genLoop env ?n cs thr [] s")
  from genLoop_children [OF gl]
  have ch: "\<forall>q \<in> set sq1. childOf ?n q" and em: "emits (localTo ?n) s s1"
    by simp_all
  have a1: "advances s s1"
    by (rule advances_genLoop [OF gl])
  show ?thesis
  proof (cases t1)
    case None
    let ?s2 = "onProgress (Node_complete None ?n) s1"
    from None assms st gl
    have eq: "s' = reportGenerated sq1 ?s2" "sq' = sq1"
      by (auto simp: generateQueries_def)
    have "emits (localTo ?n) s ?s2"
      by (rule emits_onProgress' [OF a1 em]) simp
    moreover have "emits (localTo ?n) ?s2 (reportGenerated sq1 ?s2)"
      by (rule emits_reportGenerated [OF ch])
    ultimately have "emits (localTo ?n) s (reportGenerated sq1 ?s2)"
      using emits_trans advances_onProgress' [OF a1] advances_reportGenerated by blast
    with eq ch show ?thesis by simp
  next
    case (Some e)
    with assms st gl have "s' = s1" "sq' = sq1"
      by (auto simp: generateQueries_def)
    with ch em show ?thesis by simp
  qed
qed

lemma effectiveNodeId_plain: "\<not> isRetry p \<Longrightarrow> effectiveNodeId p = p_nodeId p"
  by (auto simp: isRetry_def effectiveNodeId_def split: option.splits)

lemma obtainQueries_retry:
  assumes "p_retryNode p = Some r" "rid r \<noteq> ''0''"
  shows "obtainQueries env p s =
     (s, [\<lparr>query = Some (rlabel r), researchGoal = rresearchGoal r, nodeId = rid r\<rparr>], None)"
  using assms by (simp add: obtainQueries_def)

lemma obtainQueries_plain: "\<not> isRetry p \<Longrightarrow> obtainQueries env p s = generateQueries env p s"
  by (auto simp: isRetry_def obtainQueries_def split: option.splits)

lemma obtainQueries_nodes:
  assumes "obtainQueries env p s = (s', sqs, t)"
  shows "(\<forall>q \<in> set sqs. nodeId q \<noteq> ''0'' \<and> length (effectiveNodeId p) \<le> length (nodeId q)) \<and>
         emits (localTo (effectiveNodeId p)) s s'"
proof (cases "isRetry p")
  case True
  then obtain r where r: "p_retryNode p = Some r" "rid r \<noteq> ''0''"
    by (auto simp: isRetry_def split: option.splits)
  from obtainQueries_retry [OF r] assms r show ?thesis
    by (auto simp: effectiveNodeId_def)
next
  case False
  from assms obtainQueries_plain [OF False] have "generateQueries env p s = (s', sqs, t)"
    by simp
  from generateQueries_children [OF this] effectiveNodeId_plain [OF False] show ?thesis
    using childNodeId_not_root length_childNodeId
    by (fastforce simp: childOf_def less_imp_le)
qed

lemma emits_procLoop:
  "procLoop env q n cs thr sr s = (s', sr', t) \<Longrightarrow> emits (localTo b) s s'"
proof (induction env q n cs thr sr s rule: procLoop.induct)
  case (1 env q n thr searchResult s)
  then show ?case by simp
next
  case (2 env q n v cs thr searchResult s)
  let ?s1 = "onProgress (Processing_serach_result q v n) s"
  from "2.prems" have pl: "procLoop env q n cs thr v ?s1 = (s', sr', t)"
    by simp
  have "emits (localTo b) s ?s1"
    by (rule emits_onProgress) simp
  with "2.IH" [OF pl] show ?case
    using emits_trans advances_onProgress advances_procLoop [OF pl] by blast
next
  case (3 env q n delta cs thr searchResult s)
  let ?s1 = "onProgress (Processing_serach_result_reasoning delta n) s"
  from "3.prems" have pl: "procLoop env q n cs thr searchResult ?s1 = (s', sr', t)"
    by simp
  have "emits (localTo b) s ?s1"
    by (rule emits_onProgress) simp
  with "3.IH" [OF pl] show ?case
    using emits_trans advances_onProgress advances_procLoop [OF pl] by blast
next
  case (4 env q n msg cs thr searchResult s)
  then show ?case by (auto intro: emits_onProgress)
next
  case (5 env q n cs thr searchResult s)
  then show ?case by (auto intro: emits_onProgress)
qed

lemma emits_searchAndProcess:
  assumes "searchAndProcess env p sq q s = (s', res)"
  shows "emits (localTo b) s s'"
proof (cases "webSearch env (nodeId sq) q (p_languageCode p)")
  case (Inl e)
  with assms show ?thesis by (simp add: searchAndProcess_def)
next
  case (Inr results)
  let ?s1 = "onProgress (Search_complete results (nodeId sq)) s"
  obtain cs thr where st: "searchResultStream env (nodeId sq) q results
      (nextBreadthOf (p_breadth p)) (t_language env (p_languageCode p)) = (cs, thr)"
    by (cases "searchResultStream env (nodeId sq) q results
      (nextBreadthOf (p_breadth p)) (t_language env (p_languageCode p))")
  obtain s2 sr t where pl: "procLoop env q (nodeId sq) cs thr
      \<lparr>plearnings = None, pfollowUpQuestions = None\<rparr> ?s1 = (s2, sr, t)"
    by (cases "procLoop env q (nodeId sq) cs thr
      \<lparr>plearnings = None, pfollowUpQuestions = None\<rparr> ?s1")
  from assms Inr st pl have "s' = s2"
    by (auto simp: searchAndProcess_def split: option.splits)
  moreover have "emits (localTo b) s ?s1"
    by (rule emits_onProgress) simp
  ultimately show ?thesis
    using emits_trans advances_onProgress advances_procLoop [OF pl] emits_procLoop [OF pl]
    by blast
qed

lemma effectiveNodeId_nextParams [simp]:
  "effectiveNodeId (nextParams p sq sr) = nodeId sq"
  by (simp add: effectiveNodeId_def nextParams_def)

lemma localTo_longer: "localTo n ev \<Longrightarrow> length m \<le> length n \<Longrightarrow> localTo m ev"
  by (auto simp: localTo_def)

lemma scope:
  "emits (\<lambda>ev. (isComplete ev \<and> effectiveNodeId p = ''0'') \<or> localTo (effectiveNodeId p) ev)
     s (fst (deepResearch env p s))"
  "(\<forall>q \<in> set sqs. nodeId q \<noteq> ''0'' \<and> length (effectiveNodeId p) \<le> length (nodeId q))
     \<longrightarrow> emits (localTo (effectiveNodeId p)) s (fst (fanOut env p sqs s))"
  "nodeId sq \<noteq> ''0'' \<longrightarrow> emits (localTo (nodeId sq)) s (fst (branch env p sq s))"
proof (induction env p s and env p sqs s and env p sq s rule: deepResearch_fanOut_branch.induct)
  case (1 env p s)
  let ?s0 = "s\<lparr>calls := calls s @ [(p, concurrency s)]\<rparr>"
  let ?n = "effectiveNodeId p"
  let ?G = "\<lambda>ev. (isComplete ev \<and> ?n = ''0'') \<or> localTo ?n ev"
  obtain s1 sqs t where oq: "obtainQueries env p ?s0 = (s1, sqs, t)"
    by (cases "obtainQueries env p ?s0")
  have a1: "advances ?s0 s1"
    by (rule advances_obtainQueries [OF oq])
  from obtainQueries_nodes [OF oq]
  have nodes: "\<forall>q \<in> set sqs. nodeId q \<noteq> ''0'' \<and> length ?n \<le> length (nodeId q)"
    and e1: "emits (localTo ?n) ?s0 s1"
    by simp_all
  from e1 have g1: "emits ?G ?s0 s1"
    by (rule emits_mono) simp
  have "emits ?G ?s0 (fst (deepResearch env p s))"
  proof (cases t)
    case (Some e)
    with deepResearch_result [OF oq] a1 g1 show ?thesis
      by (simp add: emits_onProgress')
  next
    case None
    obtain s2 results where fo: "fanOut env p sqs s1 = (s2, results)"
      by (cases "fanOut env p sqs s1")
    from frame(2) [of s1 env p sqs] fo have a2: "advances s1 s2"
      by simp
    from "1.IH" [OF refl refl oq [symmetric] refl None] nodes fo
    have "emits (localTo ?n) s1 s2"
      by simp
    then have "emits ?G s1 s2"
      by (rule emits_mono) simp
    with g1 have g2: "emits ?G ?s0 s2"
      using emits_trans a1 a2 by blast
    have a02: "advances ?s0 s2"
      using a1 a2 by (rule advances_trans)
    show ?thesis
    proof (cases "?n = ''0''")
      case True
      with deepResearch_result [OF oq] None fo
      have "fst (deepResearch env p s) = onProgress (Complete (conclude results)) s2"
        by simp
      with emits_onProgress' [OF a02 g2, of "Complete (conclude results)"] True show ?thesis
        by simp
    next
      case False
      with deepResearch_result [OF oq] None fo have "fst (deepResearch env p s) = s2"
        by simp
      with g2 show ?thesis by simp
    qed
  qed
  then show ?case
    by (simp add: emits_def)
next
  case (2 env p s)
  show ?case by simp
next
  case (3 env p searchQuery rest s)
  let ?n = "effectiveNodeId p"
  show ?case
  proof
    assume nodes: "\<forall>q \<in> set (searchQuery # rest).
        nodeId q \<noteq> ''0'' \<and> length ?n \<le> length (nodeId q)"
    obtain s1 r where br: "branch env p searchQuery s = (s1, r)"
      by (cases "branch env p searchQuery s")
    obtain s2 rs where fo: "fanOut env p rest s1 = (s2, rs)"
      by (cases "fanOut env p rest s1")
    from frame(3) [of s env p searchQuery] br have a1: "advances s s1" by simp
    from frame(2) [of s1 env p rest] fo have a2: "advances s1 s2" by simp
    from "3.IH"(1) nodes br have "emits (localTo (nodeId searchQuery)) s s1"
      by simp
    then have e1: "emits (localTo ?n) s s1"
      by (rule emits_mono) (use nodes in \<open>auto intro: localTo_longer\<close>)
    from "3.IH"(2) [OF br [symmetric]] nodes fo have e2: "emits (localTo ?n) s1 s2"
      by simp
    from emits_trans [OF a1 a2 e1 e2] br fo
    show "emits (localTo ?n) s (fst (fanOut env p (searchQuery # rest) s))"
      by simp
  qed
next
  case (4 env p searchQuery s)
  let ?b = "nodeId searchQuery"
  show ?case
  proof
    assume nz: "?b \<noteq> ''0''"
    show "emits (localTo ?b) s (fst (branch env p searchQuery s))"
    proof (cases "query searchQuery = None \<or> query searchQuery = Some []")
      case True
      from branch_skip [OF this] show ?thesis by simp
    next
      case False
      then obtain q where q: "query searchQuery = Some q" "q \<noteq> []"
        by auto
      let ?s0 = "onProgress (Searching q ?b) s"
      obtain s1 res where sp: "searchAndProcess env p searchQuery q ?s0 = (s1, res)"
        by (cases "searchAndProcess env p searchQuery q ?s0")
      have a0: "advances s ?s0" by simp
      have a01: "advances ?s0 s1"
        by (rule advances_searchAndProcess [OF sp])
      have a1: "advances s s1"
        using a0 a01 by (rule advances_trans)
      have "emits (localTo ?b) s ?s0"
        by (rule emits_onProgress) simp
      then have e1: "emits (localTo ?b) s s1"
        using emits_trans [OF a0 a01] emits_searchAndProcess [OF sp] by blast
      show ?thesis
      proof (cases res)
        case (Inl e)
        with branch_thrown [OF q] sp emits_onProgress' [OF a1 e1] show ?thesis
          by simp
      next
        case (Inr sr)
        let ?s2 = "onProgress (Node_complete (Some (processedOf sr)) ?b) s1"
        have a2: "advances s ?s2"
          by (rule advances_onProgress' [OF a1])
        have e2: "emits (localTo ?b) s ?s2"
          by (rule emits_onProgress' [OF a1 e1]) simp
        show ?thesis
        proof (cases "goesDeeper p sr")
          case False
          from branch_leaf [OF q _ False] sp Inr e2 show ?thesis
            by simp
        next
          case True
          let ?s2' = "?s2\<lparr>concurrency := concurrency ?s2 + 1\<rparr>"
          obtain s3 res' where
            dr: "deepResearch env (nextParams p searchQuery sr) ?s2' = (s3, res')"
            by (cases "deepResearch env (nextParams p searchQuery sr) ?s2'")
          from frame(1) [of ?s2' env "nextParams p searchQuery sr"] dr
          have a3: "advances ?s2' s3" by simp
          from "4.IH" [OF q sp [symmetric] Inr refl True] dr nz
          have "emits (localTo ?b) ?s2' s3"
            by (simp add: emits_def)
          then have e3: "emits (localTo ?b) ?s2 (s3\<lparr>concurrency := concurrency s3 - 1\<rparr>)"
            by (simp add: emits_def)
          from a3 have a3': "advances ?s2 (s3\<lparr>concurrency := concurrency s3 - 1\<rparr>)"
            by (simp add: advances_def)
          have e4: "emits (localTo ?b) s (s3\<lparr>concurrency := concurrency s3 - 1\<rparr>)"
            by (rule emits_trans [OF a2 a3' e2 e3])
          have a4: "advances s (s3\<lparr>concurrency := concurrency s3 - 1\<rparr>)"
            by (rule advances_trans [OF a2 a3'])
          from branch_deeper [OF q _ True dr] sp Inr e4 emits_onProgress' [OF a4 e4]
          show ?thesis
            by (simp split: sum.splits)
        qed
      qed
    qed
  qed
qed

section \<open>Evaluating example runs\<close>

lemmas run_simps =
  deepResearch.simps branch.simps obtainQueries_def generateQueries_def searchAndProcess_def
  effectiveNodeId_def isRetry_def searchLanguageOf_def onProgress_def settle_def
  childNodeId_def render_def decimal.simps digit_def assignTitles_def nextBreadthOf_def
  goesDeeper_def allLearningsOf_def nextParams_def processedOf_def conclude_def dedupStep_def
  PartialSearchQuery.extend_def emitted_def Let_def


lemma demo_run:
  "snd (deepResearch demoEnv rootParams startState) = Inr \<lparr>rlearnings = []\<rparr>"
  by (simp add: run_simps demoEnv_def startState_def rootParams_def nextQueryOf_def trim_def isSpace_def)


section \<open>Completion\<close>


lemma emitted_enter [simp]:
  "emitted s (s\<lparr>calls := c\<rparr>) = []"
  by (simp add: emitted_def)




section \<open>Aggregation of the branch results\<close>

text \<open>
  C2. When a node's queries have been obtained and all its branches have settled with the
  results \<open>results\<close>, the node resolves to \<open>conclude results\<close>. Going through the branch
  results in child order and through each result's learnings in list order, the urls of
  \<open>conclude results\<close> are the urls met, each once, in the order of their first occurrence;
  and every learning kept is the first one met with its url.
\<close>

theorem aggregated_first_occurrence:
  assumes oq: "obtainQueries env p (s\<lparr>calls := calls s @ [(p, concurrency s)]\<rparr>) = (s1, sqs, None)"
    and fo: "fanOut env p sqs s1 = (s2, results)"
  shows "snd (deepResearch env p s) = Inr \<lparr>rlearnings = conclude results\<rparr> \<and>
    map url (conclude results) =
      rev (remdups (rev (map url (concat (map rlearnings results))))) \<and>
    distinct (map url (conclude results)) \<and>
    set (map url (conclude results)) = set (map url (concat (map rlearnings results))) \<and>
    (\<forall>l \<in> set (conclude results).
       find (\<lambda>x. url x = url l) (concat (map rlearnings results)) = Some l)"
proof -
  have r: "snd (deepResearch env p s) = Inr \<lparr>rlearnings = conclude results\<rparr>"
    using deepResearch_result [OF oq] fo by simp
  have u: "map url (conclude results) =
      rev (remdups (rev (map url (concat (map rlearnings results)))))"
    by (simp only: conclude_firstByUrl url_firstByUrl) simp
  have d: "distinct (map url (conclude results))"
    by (simp only: u) simp
  have e: "set (map url (conclude results)) = set (map url (concat (map rlearnings results)))"
    by (simp only: u) simp
  have f: "\<forall>l \<in> set (conclude results).
      find (\<lambda>x. url x = url l) (concat (map rlearnings results)) = Some l"
    using find_firstByUrl [of _ "{}"] by (simp add: conclude_firstByUrl)
  from r u d e f show ?thesis by blast
qed

lemma overlap_results:
  "snd (fanOut overlapEnv rootParams
          [\<lparr>query = Some ''a'', researchGoal = Some ''ga'', nodeId = ''0-0''\<rparr>,
           \<lparr>query = Some ''b'', researchGoal = Some ''gb'', nodeId = ''0-1''\<rparr>] s) =
     [\<lparr>rlearnings = [\<lparr>url = Some ''u'', learning = Some ''A'', title = Some ''T''\<rparr>,
                     \<lparr>url = Some ''v'', learning = Some ''B'', title = None\<rparr>]\<rparr>,
      \<lparr>rlearnings = [\<lparr>url = Some ''u'', learning = Some ''C'', title = Some ''T''\<rparr>,
                     \<lparr>url = Some ''w'', learning = Some ''D'', title = None\<rparr>]\<rparr>]"
  by (simp add: run_simps overlapEnv_def rootParams_def split: prod.splits)

theorem aggregated_first_occurrence_witness:
  "snd (deepResearch overlapEnv rootParams startState) =
     Inr \<lparr>rlearnings = [\<lparr>url = Some ''u'', learning = Some ''A'', title = Some ''T''\<rparr>,
                        \<lparr>url = Some ''v'', learning = Some ''B'', title = None\<rparr>,
                        \<lparr>url = Some ''w'', learning = Some ''D'', title = None\<rparr>]\<rparr> \<and>
   \<lparr>url = Some ''u'', learning = Some ''A'', title = Some ''T''\<rparr> \<in>
     set [\<lparr>url = Some ''u'', learning = Some ''A'', title = Some ''T''\<rparr>,
          \<lparr>url = Some ''v'', learning = Some ''B'', title = None\<rparr>,
          \<lparr>url = Some ''w'', learning = Some ''D'', title = None\<rparr>] \<and>
   find (\<lambda>x. url x = Some ''u'')
     [\<lparr>url = Some ''u'', learning = Some ''A'', title = Some ''T''\<rparr>,
      \<lparr>url = Some ''v'', learning = Some ''B'', title = None\<rparr>,
      \<lparr>url = Some ''u'', learning = Some ''C'', title = Some ''T''\<rparr>,
      \<lparr>url = Some ''w'', learning = Some ''D'', title = None\<rparr>] =
     Some \<lparr>url = Some ''u'', learning = Some ''A'', title = Some ''T''\<rparr>"
proof -
  let ?s0 = "startState\<lparr>calls := calls startState @ [(rootParams, concurrency startState)]\<rparr>"
  let ?sqs = "[\<lparr>query = Some ''a'', researchGoal = Some ''ga'', nodeId = ''0-0''\<rparr>,
               \<lparr>query = Some ''b'', researchGoal = Some ''gb'', nodeId = ''0-1''\<rparr>]"
  let ?la = "\<lparr>url = Some ''u'', learning = Some ''A'', title = Some ''T''\<rparr>"
  obtain s1 where oq: "obtainQueries overlapEnv rootParams ?s0 = (s1, ?sqs, None)"
    by (simp add: run_simps overlapEnv_def startState_def rootParams_def)
  obtain s2 results where fo: "fanOut overlapEnv rootParams ?sqs s1 = (s2, results)"
    by (cases "fanOut overlapEnv rootParams ?sqs s1")
  from fo overlap_results [of s1]
  have res: "results =
     [\<lparr>rlearnings = [?la, \<lparr>url = Some ''v'', learning = Some ''B'', title = None\<rparr>]\<rparr>,
      \<lparr>rlearnings = [\<lparr>url = Some ''u'', learning = Some ''C'', title = Some ''T''\<rparr>,
                     \<lparr>url = Some ''w'', learning = Some ''D'', title = None\<rparr>]\<rparr>]"
    by simp
  have con: "conclude results =
     [?la, \<lparr>url = Some ''v'', learning = Some ''B'', title = None\<rparr>,
      \<lparr>url = Some ''w'', learning = Some ''D'', title = None\<rparr>]"
    by (simp add: res conclude_def dedupStep_def)
  from aggregated_first_occurrence [OF oq fo]
  have k: "snd (deepResearch overlapEnv rootParams startState) =
       Inr \<lparr>rlearnings = conclude results\<rparr>"
    "\<forall>l \<in> set (conclude results).
       find (\<lambda>x. url x = url l) (concat (map rlearnings results)) = Some l"
    by blast+
  have mem: "?la \<in> set (conclude results)"
    by (simp add: con)
  from k(2) mem
  have "find (\<lambda>x. url x = url ?la) (concat (map rlearnings results)) = Some ?la"
    by blast
  then have f: "find (\<lambda>x. url x = Some ''u'') (concat (map rlearnings results)) = Some ?la"
    by simp
  from k(1) mem f show ?thesis
    unfolding con unfolding res by simp
qed


section \<open>Retrying a node\<close>

lemma effectiveNodeId_retry:
  "p_retryNode p = Some r \<Longrightarrow> rid r \<noteq> ''0'' \<Longrightarrow> effectiveNodeId p = rid r"
  by (simp add: effectiveNodeId_def)


text \<open>
  C6. With a \<open>retryNode\<close> whose id is not \<open>0\<close>, obtaining the child queries reports no
  event and consults no model: it leaves the state as it is and yields exactly one query,
  with the retried node's own NodeId, its label as query text and its research goal. In
  the whole invocation no \<open>generating_query\<close> or \<open>generated_query\<close> event announces the
  retried node.
\<close>

theorem retry_bypasses_generation:
  assumes "p_retryNode p = Some r" "rid r \<noteq> ''0''"
  shows "obtainQueries env p s =
           (s, [\<lparr>query = Some (rlabel r), researchGoal = rresearchGoal r, nodeId = rid r\<rparr>],
            None) \<and>
         (\<forall>ev \<in> set (emitted s (fst (deepResearch env p s))). generatedNode ev \<noteq> Some (rid r))"
proof -
  have n: "effectiveNodeId p = rid r"
    using assms by (rule effectiveNodeId_retry)
  have "\<forall>ev \<in> set (emitted s (fst (deepResearch env p s))).
      (isComplete ev \<and> rid r = ''0'') \<or> localTo (rid r) ev"
    using scope(1) [of p s env] n by (simp add: emits_def)
  with assms(2)
  have "\<forall>ev \<in> set (emitted s (fst (deepResearch env p s))). generatedNode ev \<noteq> Some (rid r)"
    by (auto simp: localTo_def)
  with obtainQueries_retry [OF assms] show ?thesis
    by simp
qed

lemma retry_run:
  "events (fst (deepResearch demoEnv retryParams startState)) =
     [Searching ''X'' ''0-1'',
      Search_complete [\<lparr>wurl = ''u'', wtitle = Some ''T'', wcontent = ''c''\<rparr>] ''0-1'',
      Processing_serach_result ''X''
        \<lparr>plearnings = Some [\<lparr>url = Some ''u'', learning = Some ''L'', title = None\<rparr>],
         pfollowUpQuestions = Some [''f'']\<rparr> ''0-1'',
      Node_complete
        (Some \<lparr>learnings = [\<lparr>url = Some ''u'', learning = Some ''L'', title = Some ''T''\<rparr>],
               followUpQuestions = [''f'']\<rparr>) ''0-1'',
      Error_step (Some ''down'') ''0-1'',
      Node_complete None ''0-1'']"
  by (simp add: run_simps demoEnv_def startState_def rootParams_def retryParams_def
        nextQueryOf_def trim_def isSpace_def)

theorem retry_bypasses_generation_witness:
  "p_retryNode retryParams = Some \<lparr>rid = ''0-1'', rlabel = ''X'', rresearchGoal = Some ''Y''\<rparr> \<and>
   obtainQueries demoEnv retryParams startState =
     (startState, [\<lparr>query = Some ''X'', researchGoal = Some ''Y'', nodeId = ''0-1''\<rparr>], None) \<and>
   Node_complete None ''0-1'' \<in> set (emitted startState (fst (deepResearch demoEnv retryParams startState))) \<and>
   generatedNode (Node_complete None ''0-1'') \<noteq> Some ''0-1''"
proof -
  let ?r = "\<lparr>rid = ''0-1'', rlabel = ''X'', rresearchGoal = Some ''Y''\<rparr>"
  have h: "p_retryNode retryParams = Some ?r" "rid ?r \<noteq> ''0''"
    by (simp_all add: retryParams_def)
  have m: "Node_complete None ''0-1'' \<in>
      set (emitted startState (fst (deepResearch demoEnv retryParams startState)))"
    by (simp add: emitted_def retry_run) (simp add: startState_def)
  from retry_bypasses_generation [OF h, of demoEnv startState] m h(1) show ?thesis
    by auto
qed



section \<open>A node without children\<close>

text \<open>
  C10. When the query phase ends normally with no child query, the invocation resolves to
  no learnings, whatever learnings it inherited, and reports nothing further, except that
  the root reports \<open>complete\<close> with the empty list.
\<close>

theorem no_children_no_learnings:
  assumes "obtainQueries env p (s\<lparr>calls := calls s @ [(p, concurrency s)]\<rparr>) = (s1, [], None)"
  shows "deepResearch env p s =
           (if effectiveNodeId p = ''0'' then onProgress (Complete []) s1 else s1,
            Inr \<lparr>rlearnings = []\<rparr>)"
  using deepResearch_result [OF assms] by (simp add: conclude_def)

theorem no_children_no_learnings_witness:
  "p_learnings inheritingParams =
     Some [\<lparr>url = Some ''u'', learning = Some ''known'', title = None\<rparr>] \<and>
   effectiveNodeId inheritingParams = ''0'' \<and>
   deepResearch silentEnv inheritingParams startState =
     (\<lparr>events = [Error_step (Some ''invalid'') ''0'', Node_complete None ''0'', Complete []],
       concurrency = 2, calls = [(inheritingParams, 2)]\<rparr>,
      Inr \<lparr>rlearnings = []\<rparr>)"
proof -
  let ?s0 = "startState\<lparr>calls := calls startState @ [(inheritingParams, concurrency startState)]\<rparr>"
  let ?s1 = "\<lparr>events = [Error_step (Some ''invalid'') ''0'', Node_complete None ''0''],
              concurrency = 2, calls = [(inheritingParams, 2)]\<rparr>"
  have l: "p_learnings inheritingParams =
     Some [\<lparr>url = Some ''u'', learning = Some ''known'', title = None\<rparr>]"
    by (simp add: inheritingParams_def)
  have n: "effectiveNodeId inheritingParams = ''0''"
    by (simp add: inheritingParams_def rootParams_def effectiveNodeId_def)
  have oq: "obtainQueries silentEnv inheritingParams ?s0 = (?s1, [], None)"
    by (simp add: run_simps silentEnv_def demoEnv_def startState_def inheritingParams_def
          rootParams_def)
  from no_children_no_learnings [OF oq] n
  have "deepResearch silentEnv inheritingParams startState =
      (onProgress (Complete []) ?s1, Inr \<lparr>rlearnings = []\<rparr>)"
    by simp
  with l n show ?thesis
    by (simp add: onProgress_def)
qed

section \<open>Results do not depend on the state\<close>

lemma genLoop_result:
  "snd (genLoop env n cs thr sq s) = snd (genLoop env n cs thr sq s')"
proof (induction env n cs thr sq s arbitrary: s' rule: genLoop.induct)
  case (2 env n v cs thr searchQueries s)
  show ?case
  proof (cases "queries v")
    case None
    with "2.IH"(1) show ?thesis by simp
  next
    case (Some qs)
    from "2.IH"(2) [OF Some refl, of "reportGenerating n (settle n qs) s'"] Some show ?thesis
      by (simp add: Let_def)
  qed
qed simp_all

lemma generateQueries_result:
  "snd (generateQueries env p s) = snd (generateQueries env p s')"
proof -
  obtain cs thr where st: "searchQueriesStream env (p_nodeId p) (p_query p)
         (map_option (map learning) (p_learnings p)) (p_breadth p)
         (t_language env (p_languageCode p)) (searchLanguageOf env p) = (cs, thr)"
    by (cases "searchQueriesStream env (p_nodeId p) (p_query p)
         (map_option (map learning) (p_learnings p)) (p_breadth p)
         (t_language env (p_languageCode p)) (searchLanguageOf env p)")
  obtain s1 sq1 t1 where g1: "genLoop env (p_nodeId p) cs thr [] s = (s1, sq1, t1)"
    by (cases "genLoop env (p_nodeId p) cs thr [] s")
  obtain s2 sq2 t2 where g2: "genLoop env (p_nodeId p) cs thr [] s' = (s2, sq2, t2)"
    by (cases "genLoop env (p_nodeId p) cs thr [] s'")
  from genLoop_result [of env "p_nodeId p" cs thr "[]" s s'] g1 g2
  have "sq1 = sq2" "t1 = t2"
    by simp_all
  with st g1 g2 show ?thesis
    by (simp add: generateQueries_def split: option.splits)
qed

lemma obtainQueries_result:
  "snd (obtainQueries env p s) = snd (obtainQueries env p s')"
  using generateQueries_result [of env p s s']
  by (simp add: obtainQueries_def split: option.splits)




section \<open>What the helpers leave alone\<close>

lemma limiter_procLoop:
  "procLoop env q n cs thr sr s = (s', sr', t)
    \<Longrightarrow> calls s' = calls s \<and> concurrency s' = concurrency s"
  by (induction env q n cs thr sr s rule: procLoop.induct) (auto simp: onProgress_def)

lemma limiter_searchAndProcess:
  assumes "searchAndProcess env p sq q s = (s', res)"
  shows "calls s' = calls s \<and> concurrency s' = concurrency s"
proof (cases "webSearch env (nodeId sq) q (p_languageCode p)")
  case (Inl e)
  with assms show ?thesis by (simp add: searchAndProcess_def)
next
  case (Inr results)
  let ?s1 = "onProgress (Search_complete results (nodeId sq)) s"
  obtain cs thr where st: "searchResultStream env (nodeId sq) q results
      (nextBreadthOf (p_breadth p)) (t_language env (p_languageCode p)) = (cs, thr)"
    by (cases "searchResultStream env (nodeId sq) q results
      (nextBreadthOf (p_breadth p)) (t_language env (p_languageCode p))")
  obtain s2 sr t where pl: "procLoop env q (nodeId sq) cs thr
      \<lparr>plearnings = None, pfollowUpQuestions = None\<rparr> ?s1 = (s2, sr, t)"
    by (cases "procLoop env q (nodeId sq) cs thr
      \<lparr>plearnings = None, pfollowUpQuestions = None\<rparr> ?s1")
  from assms Inr st pl have "s' = s2"
    by (auto simp: searchAndProcess_def split: option.splits)
  with limiter_procLoop [OF pl] show ?thesis
    by (simp add: onProgress_def)
qed

lemma searchAndProcess_search_fails:
  "webSearch env (nodeId sq) q (p_languageCode p) = Inl e
    \<Longrightarrow> searchAndProcess env p sq q s = (s, Inl e)"
  by (simp add: searchAndProcess_def)


section \<open>The recursion decision\<close>

text \<open>
  C3. A branch makes a recursive call of \<open>deepResearch\<close> exactly when it has a query text,
  its search and processing did not throw, \<open>currentDepth + 1 \<le> maxDepth\<close>, and the processed
  result has at least one follow-up question. So no branch recurses beyond \<open>maxDepth\<close>,
  however many follow-up questions it has, and none recurses without a follow-up question.
  When it recurses, the call is made with \<open>nextParams\<close>, the limiter's \<open>concurrency\<close> raised
  by one.
\<close>

theorem recursion_decision:
  "(calls (fst (branch env p sq s)) \<noteq> calls s) =
     (\<exists>q s1 sr. query sq = Some q \<and> q \<noteq> [] \<and>
        searchAndProcess env p sq q (onProgress (Searching q (nodeId sq)) s) = (s1, Inr sr) \<and>
        p_currentDepth p + 1 \<le> p_maxDepth p \<and>
        (\<exists>fs. pfollowUpQuestions sr = Some fs \<and> fs \<noteq> [])) \<and>
   (\<forall>q s1 sr. query sq = Some q \<and> q \<noteq> [] \<and>
        searchAndProcess env p sq q (onProgress (Searching q (nodeId sq)) s) = (s1, Inr sr) \<and>
        p_currentDepth p + 1 \<le> p_maxDepth p \<and>
        (\<exists>fs. pfollowUpQuestions sr = Some fs \<and> fs \<noteq> [])
      \<longrightarrow> (\<exists>more. calls (fst (branch env p sq s)) =
             calls s @ (nextParams p sq sr, concurrency s + 1) # more))"
proof (cases "query sq = None \<or> query sq = Some []")
  case True
  from branch_skip [OF this] True show ?thesis by auto
next
  case False
  then obtain q where q: "query sq = Some q" "q \<noteq> []"
    by auto
  let ?b = "nodeId sq"
  obtain s1 res where sp: "searchAndProcess env p sq q (onProgress (Searching q ?b) s) = (s1, res)"
    by (cases "searchAndProcess env p sq q (onProgress (Searching q ?b) s)")
  from limiter_searchAndProcess [OF sp]
  have l1: "calls s1 = calls s" "concurrency s1 = concurrency s"
    by (simp_all add: onProgress_def)
  show ?thesis
  proof (cases res)
    case (Inl e)
    with branch_thrown [OF q] sp l1 q show ?thesis
      by (auto simp: onProgress_def)
  next
    case (Inr sr)
    let ?s2 = "onProgress (Node_complete (Some (processedOf sr)) ?b) s1"
    have deep: "goesDeeper p sr \<longleftrightarrow>
        p_currentDepth p + 1 \<le> p_maxDepth p \<and> (\<exists>fs. pfollowUpQuestions sr = Some fs \<and> fs \<noteq> [])"
      by (auto simp: goesDeeper_def split: option.splits)
    show ?thesis
    proof (cases "goesDeeper p sr")
      case False
      from branch_leaf [OF q _ False] sp Inr
      have "calls (fst (branch env p sq s)) = calls s"
        using l1 by (simp add: onProgress_def)
      with False deep q sp Inr show ?thesis
        by auto
    next
      case True
      let ?s2' = "?s2\<lparr>concurrency := concurrency ?s2 + 1\<rparr>"
      let ?p' = "nextParams p sq sr"
      obtain s3 res' where dr: "deepResearch env ?p' ?s2' = (s3, res')"
        by (cases "deepResearch env ?p' ?s2'")
      from frame(1) [of ?s2' env ?p'] dr l1
      obtain more where m: "calls s3 = calls s @ (?p', concurrency s + 1) # more"
        by (auto simp: onProgress_def)
      from branch_deeper [OF q _ True dr] sp Inr
      have "calls (fst (branch env p sq s)) = calls s3"
        by (simp add: onProgress_def split: sum.splits)
      with m have c: "calls (fst (branch env p sq s)) = calls s @ (?p', concurrency s + 1) # more"
        by simp
      then have "calls (fst (branch env p sq s)) \<noteq> calls s"
        by simp
      with c True deep q sp Inr show ?thesis
        by auto
    qed
  qed
qed


theorem recursion_decision_witness:
  "p_currentDepth rootParams + 1 \<le> p_maxDepth rootParams \<and>
   calls (fst (branch demoEnv rootParams
     \<lparr>query = Some ''a'', researchGoal = Some ''ga'', nodeId = ''0-0''\<rparr> startState)) \<noteq>
     calls startState \<and>
   \<not> p_currentDepth leafParams + 1 \<le> p_maxDepth leafParams \<and>
   calls (fst (branch demoEnv leafParams
     \<lparr>query = Some ''a'', researchGoal = Some ''ga'', nodeId = ''0-0''\<rparr> startState)) =
     calls startState \<and>
   calls (fst (branch overlapEnv rootParams
     \<lparr>query = Some ''a'', researchGoal = Some ''ga'', nodeId = ''0-0''\<rparr> startState)) =
     calls startState"
proof -
  let ?sq = "\<lparr>query = Some ''a'', researchGoal = Some ''ga'', nodeId = ''0-0''\<rparr>"
  have d: "p_currentDepth rootParams + 1 \<le> p_maxDepth rootParams"
    "\<not> p_currentDepth leafParams + 1 \<le> p_maxDepth leafParams"
    by (simp_all add: rootParams_def leafParams_def)
  obtain s1 sr where
    "searchAndProcess demoEnv rootParams ?sq ''a''
       (onProgress (Searching ''a'' (nodeId ?sq)) startState) = (s1, Inr sr)"
    "pfollowUpQuestions sr = Some [''f'']"
    by (simp add: run_simps demoEnv_def rootParams_def)
  with d(1) have
    "\<exists>q s1 sr. query ?sq = Some q \<and> q \<noteq> [] \<and>
        searchAndProcess demoEnv rootParams ?sq q
          (onProgress (Searching q (nodeId ?sq)) startState) = (s1, Inr sr) \<and>
        p_currentDepth rootParams + 1 \<le> p_maxDepth rootParams \<and>
        (\<exists>fs. pfollowUpQuestions sr = Some fs \<and> fs \<noteq> [])"
    by auto
  with recursion_decision [of demoEnv rootParams ?sq startState]
  have a: "calls (fst (branch demoEnv rootParams ?sq startState)) \<noteq> calls startState"
    by blast
  from recursion_decision [of demoEnv leafParams ?sq startState] d(2)
  have b: "calls (fst (branch demoEnv leafParams ?sq startState)) = calls startState"
    by blast
  have "\<not> (\<exists>q s1 sr. query ?sq = Some q \<and> q \<noteq> [] \<and>
        searchAndProcess overlapEnv rootParams ?sq q
          (onProgress (Searching q (nodeId ?sq)) startState) = (s1, Inr sr) \<and>
        p_currentDepth rootParams + 1 \<le> p_maxDepth rootParams \<and>
        (\<exists>fs. pfollowUpQuestions sr = Some fs \<and> fs \<noteq> []))"
    by (auto simp: run_simps overlapEnv_def rootParams_def)
  with recursion_decision [of overlapEnv rootParams ?sq startState]
  have c: "calls (fst (branch overlapEnv rootParams ?sq startState)) = calls startState"
    by blast
  from d a b c show ?thesis by blast
qed

section \<open>Errors stay in their branch\<close>





section \<open>Properties of the limiter\<close>





lemma unitsOf_obtainQueries:
  "obtainQueries env p s = (s1, sqs, None) \<Longrightarrow> unitsOf env p = sqs"
  using obtainQueries_result [of env p idle s] by (simp add: unitsOf_def)



lemmas limiter_simps =
  recursesWith_def unitsOf_def idle_def wideEnv_def overlapEnv_def rootParams_def
  nextQueryOf_def trim_def isSpace_def

lemma wide_units:
  "unitsOf wideEnv rootParams =
     [\<lparr>query = Some ''a'', researchGoal = Some ''ga'', nodeId = ''0-0''\<rparr>,
      \<lparr>query = Some ''b'', researchGoal = Some ''gb'', nodeId = ''0-1''\<rparr>]"
  by (simp add: run_simps limiter_simps)





end
